theory Spec2Isabelle
  imports Main "HOL-Library.AList" "HOL-Library.Multiset" "HOL-Library.Product_Lexorder"
begin

section \<open>Values, results and exceptions\<close>

text \<open>
  The result store of \<^verbatim>\<open>autodse/database.py\<close> and the tail of the main flow of
  \<^verbatim>\<open>autodse/__main__.py\<close>, as pure functions on an explicit store state.

  A raise is a value: an operation that may raise returns \<open>(pyexn \<times> state) + state\<close>,
  the left injection carrying the exception together with the state at the moment
  of the raise (writes done before the raise stay done).
\<close>

datatype pyexn =
  RuntimeError | AttributeError | AssertionError | TypeError
  | ValueError | UnpicklingError | EOFError | DataError

text \<open>
  \<^verbatim>\<open>autodse/result.py\<close> is imported by the store but defines no behaviour the store
  relies on beyond the attributes read here: \<^verbatim>\<open>quality\<close>, \<^verbatim>\<open>valid\<close>, \<^verbatim>\<open>ret_code\<close>,
  \<^verbatim>\<open>code_hash\<close>, \<^verbatim>\<open>point\<close>, \<^verbatim>\<open>path\<close>, and the class of the object, which the
  \<^verbatim>\<open>isinstance\<close> tests inspect. \<^verbatim>\<open>HLSResult\<close> and \<^verbatim>\<open>MerlinResult\<close> are subclasses
  of \<^verbatim>\<open>Result\<close>. The quality is a score of a totally ordered type \<open>'q\<close>.
\<close>

datatype result_class = BaseResult | HLSResult | MerlinResult

record 'q result =
  cls :: result_class
  point :: "nat option"
  ret_code :: int
  valid :: bool
  path :: "string option"
  quality :: 'q
  code_hash :: "string option"

text \<open>
  What a caller may pass where the source says \<^verbatim>\<open>Any\<close>: \<^verbatim>\<open>None\<close>, a boolean, a
  result object, or a string. A string is either the \<^verbatim>\<open>jsonpickle\<close> encoding of a
  value or some other text (which \<^verbatim>\<open>jsonpickle.decode\<close> rejects).
\<close>

datatype 'q pyval = PyNone | PyBool bool | PyObj "'q result" | PyStr "'q pystr"
  and 'q pystr = Encoded "'q pyval" | Text string

fun isinstance_Result :: "'q pyval \<Rightarrow> bool" where
  "isinstance_Result (PyObj r) = True"
| "isinstance_Result _ = False"

fun isinstance_bool :: "'q pyval \<Rightarrow> bool" where
  "isinstance_bool (PyBool b) = True"
| "isinstance_bool _ = False"

type_synonym key = string

datatype log_entry = Error string | Warning string | Info string

section \<open>The best cache: a priority queue of (quality, timestamp, result)\<close>

text \<open>
  \<^verbatim>\<open>self.best_cache\<close> is a \<^verbatim>\<open>queue.PriorityQueue\<close> of tuples
  \<^verbatim>\<open>(quality, timestamp, result)\<close>: \<^verbatim>\<open>put\<close> adds an entry, \<^verbatim>\<open>get\<close> removes and
  returns the least entry in Python's tuple order, and blocks while the queue is
  empty. The queue is kept as the list of its entries in insertion order; the tuple
  order is the lexicographic order on (quality, timestamp). The timestamp is the
  reading of \<^verbatim>\<open>time()\<close> at the insertion, of a totally ordered type \<open>'t\<close>, and is an
  explicit argument of every operation that inserts. Python would go on to compare
  the result objects of two entries that agree on quality and timestamp; the source
  takes the timestamps of such entries to differ (the comment in \<^verbatim>\<open>__init__\<close>), and
  the result objects are not compared here: of entries that agree on both, \<open>pq_get\<close>
  returns the one inserted first.
\<close>

type_synonym ('q, 't) entry = "'q \<times> 't \<times> 'q result"

definition entry_key :: "('q, 't) entry \<Rightarrow> 'q \<times> 't" where
  "entry_key e = (fst e, fst (snd e))"

definition entry_result :: "('q, 't) entry \<Rightarrow> 'q result" where
  "entry_result e = snd (snd e)"

definition pq_put :: "('q, 't) entry \<Rightarrow> ('q, 't) entry list \<Rightarrow> ('q, 't) entry list" where
  "pq_put e q = q @ [e]"

text \<open>\<open>None\<close>: the queue is empty and \<^verbatim>\<open>get()\<close> blocks.\<close>

definition pq_get ::
  "('q::linorder, 't::linorder) entry list \<Rightarrow> (('q, 't) entry \<times> ('q, 't) entry list) option" where
  "pq_get q =
     (if q = [] then None
      else let m = arg_min_list entry_key q in Some (m, remove1 m q))"

section \<open>The store\<close>

record ('q, 't, 's) db =
  best_cache_size :: int
  best_cache :: "('q, 't) entry list"
  code_hash_set :: "string set"
  database :: 's
  log :: "log_entry list"

text \<open>\<^verbatim>\<open>Database.__init__\<close>, given the backend handle the subclass creates.\<close>

definition Database_init :: "int \<Rightarrow> 's \<Rightarrow> ('q, 't, 's) db" where
  "Database_init cache_size s =
     \<lparr>best_cache_size = cache_size, best_cache = [], code_hash_set = {},
      database = s, log = []\<rparr>"

definition add_code_hash :: "string \<Rightarrow> ('q, 't, 's) db \<Rightarrow> bool \<times> ('q, 't, 's) db" where
  "add_code_hash h d =
     (if h \<in> code_hash_set d then (False, d)
      else (True, d\<lparr>code_hash_set := insert h (code_hash_set d)\<rparr>))"

definition update_best :: "'q result \<Rightarrow> 't \<Rightarrow> ('q, 't, 's) db \<Rightarrow> ('q, 't, 's) db" where
  "update_best r now d = d\<lparr>best_cache := pq_put (quality r, now, r) (best_cache d)\<rparr>"

text \<open>
  \<^verbatim>\<open>commit\<close> and \<^verbatim>\<open>batch_commit\<close> call the backend's \<^verbatim>\<open>commit_impl\<close> and
  \<^verbatim>\<open>batch_commit_impl\<close>, which the base class leaves abstract: they are arguments
  here, acting on the backend handle.
\<close>

definition commit ::
  "(key \<Rightarrow> 'q pyval \<Rightarrow> 's \<Rightarrow> bool \<times> 's) \<Rightarrow> key \<Rightarrow> 'q pyval \<Rightarrow> 't \<Rightarrow> ('q, 't, 's) db
   \<Rightarrow> (pyexn \<times> ('q, 't, 's) db) + ('q, 't, 's) db" where
  "commit commit_impl k v now d =
     (case commit_impl k v (database d) of
        (ok, s') \<Rightarrow>
          if \<not> ok then
            Inl (RuntimeError,
                 d\<lparr>database := s',
                   log := log d @ [Error ''Failed to commit results to the database'']\<rparr>)
          else
            (case v of
               PyObj r \<Rightarrow> Inr (update_best r now (d\<lparr>database := s'\<rparr>))
             | _ \<Rightarrow> Inr (d\<lparr>database := s'\<rparr>)))"



section \<open>Trimming and draining the best cache (\<^verbatim>\<open>__main__.py\<close>)\<close>

text \<open>
  The inner loop of the supervising loop of \<^verbatim>\<open>launch_exploration\<close>:
  \<^verbatim>\<open>while db.best_cache.qsize() > db.best_cache_size: db.best_cache.get()\<close>.
  \<open>None\<close>: \<^verbatim>\<open>get()\<close> was called on an empty queue and blocks (a negative size).
\<close>

lemma pq_get_length: "pq_get q = Some (m, q') \<Longrightarrow> length q' < length q"
  by (auto simp: pq_get_def Let_def length_remove1 arg_min_list_in split: if_splits)

function trim_cache ::
  "int \<Rightarrow> ('q::linorder, 't::linorder) entry list \<Rightarrow> ('q, 't) entry list option" where
  "trim_cache n q =
     (if int (length q) > n then
        (case pq_get q of None \<Rightarrow> None | Some (m, q') \<Rightarrow> trim_cache n q')
      else Some q)"
  by pat_completeness auto
termination
  by (relation "measure (\<lambda>(n, q). length q)") (auto simp: pq_get_length)

declare trim_cache.simps [simp del]

text \<open>
  What the workers and the supervising loop do to the store, in the order it
  happens: a worker's \<^verbatim>\<open>db.commit(key, result)\<close> at clock reading \<open>t\<close>, or one
  iteration of the supervising loop (\<open>Poll\<close>: sleep, trim, report). The loop tests
  \<^verbatim>\<open>any([not exe.done() for exe in pool])\<close> only between iterations, so commits may
  follow the last iteration, and there may be no iteration at all. The store of
  the main flow is a \<^verbatim>\<open>RedisDatabase\<close>. An exception raised by a commit stays in the
  worker's future; the supervising loop never reads it. The reporter is taken to
  leave the store as it is.
\<close>

datatype ('q, 't) step = Commit key "'q pyval" 't | Poll

section \<open>The networked backend: \<^verbatim>\<open>RedisDatabase\<close>\<close>

text \<open>
  A byte string is represented by what \<^verbatim>\<open>pickle.loads\<close> makes of it: the pickle
  of a value (\<^verbatim>\<open>pickle.dumps\<close> followed by \<^verbatim>\<open>pickle.loads\<close> gives the value back), a
  non-empty string on which \<^verbatim>\<open>pickle.loads\<close> raises the given exception
  (\<^verbatim>\<open>pickle.UnpicklingError\<close> for an invalid load key such as \<^verbatim>\<open>b'x'\<close>,
  \<^verbatim>\<open>ValueError\<close> for an unsupported protocol number, ...), or the empty string.
\<close>

datatype 'q bytes = Pickled "'q pyval" | Damaged pyexn | NoBytes

definition pickle_dumps :: "'q pyval \<Rightarrow> 'q bytes" where
  "pickle_dumps v = Pickled v"

fun pickle_loads :: "'q bytes \<Rightarrow> pyexn + 'q pyval" where
  "pickle_loads (Pickled v) = Inr v"
| "pickle_loads (Damaged e) = Inl e"
| "pickle_loads NoBytes = Inl EOFError"

text \<open>The truth value of \<^verbatim>\<open>if pickled_obj:\<close> on what \<^verbatim>\<open>hget\<close> returned.\<close>

fun truthy :: "'q bytes option \<Rightarrow> bool" where
  "truthy None = False"
| "truthy (Some NoBytes) = False"
| "truthy (Some b) = True"

text \<open>
  The Redis hash stored under \<^verbatim>\<open>self.db_id\<close>, as a Python-style dictionary (an
  association list, updated in place). The client calls the source makes:
  \<^verbatim>\<open>hexists\<close>, \<^verbatim>\<open>hget\<close>, \<^verbatim>\<open>hset\<close>, \<^verbatim>\<open>hmget\<close>, \<^verbatim>\<open>hkeys\<close>, \<^verbatim>\<open>hgetall\<close> and
  \<^verbatim>\<open>hmset\<close>, which \<^verbatim>\<open>redis-py\<close> refuses for an empty mapping
  (\<^verbatim>\<open>DataError: 'hmset' with 'mapping' of length 0\<close>).
\<close>

type_synonym 'q rhash = "(key \<times> 'q bytes) list"

definition hexists :: "'q rhash \<Rightarrow> key \<Rightarrow> bool" where
  "hexists s k = (map_of s k \<noteq> None)"

definition hget :: "'q rhash \<Rightarrow> key \<Rightarrow> 'q bytes option" where
  "hget s k = map_of s k"

definition hset :: "key \<Rightarrow> 'q bytes \<Rightarrow> 'q rhash \<Rightarrow> 'q rhash" where
  "hset k b s = AList.update k b s"

definition hmget :: "'q rhash \<Rightarrow> key list \<Rightarrow> 'q bytes option list" where
  "hmget s ks = map (map_of s) ks"

definition hkeys :: "'q rhash \<Rightarrow> key list" where
  "hkeys s = map fst s"

definition hmset :: "'q rhash \<Rightarrow> 'q rhash \<Rightarrow> pyexn + 'q rhash" where
  "hmset mapping s =
     (if mapping = [] then Inl DataError
      else Inr (fold (\<lambda>(k, b). AList.update k b) mapping s))"

text \<open>\<^verbatim>\<open>RedisDatabase.__init__\<close> with a reachable server: a new, empty hash.\<close>

definition RedisDatabase_init :: "int \<Rightarrow> ('q, 't, 'q rhash) db" where
  "RedisDatabase_init cache_size = Database_init cache_size []"

definition RedisDatabase_query ::
  "('q, 't, 'q rhash) db \<Rightarrow> key
   \<Rightarrow> (pyexn \<times> ('q, 't, 'q rhash) db) + ('q pyval \<times> ('q, 't, 'q rhash) db)" where
  "RedisDatabase_query d k =
     (if \<not> hexists (database d) k then Inr (PyNone, d)
      else
        let pickled_obj = hget (database d) k in
        if truthy pickled_obj then
          (case pickled_obj of
             None \<Rightarrow> Inr (PyNone, d)
           | Some b \<Rightarrow>
               (case pickle_loads b of
                  Inr v \<Rightarrow> Inr (v, d)
                | Inl e \<Rightarrow>
                    if e = ValueError then
                      Inr (PyNone,
                           d\<lparr>log := log d @ [Error (''Failed to deserialize the result of '' @ k)]\<rparr>)
                    else Inl (e, d)))
        else Inr (PyNone, d))"

text \<open>The loop of \<^verbatim>\<open>batch_query\<close> over \<^verbatim>\<open>zip(keys, hmget(db_id, keys))\<close>.\<close>

fun batch_query_loop ::
  "(key \<times> 'q bytes option) list \<Rightarrow> 'q pyval list \<Rightarrow> ('q, 't, 'q rhash) db
   \<Rightarrow> (pyexn \<times> ('q, 't, 'q rhash) db) + ('q pyval list \<times> ('q, 't, 'q rhash) db)" where
  "batch_query_loop [] data d = Inr (data, d)"
| "batch_query_loop ((k, pickled_obj) # rest) data d =
     (if truthy pickled_obj then
        (case pickled_obj of
           None \<Rightarrow> batch_query_loop rest (data @ [PyNone]) d
         | Some b \<Rightarrow>
             (case pickle_loads b of
                Inr v \<Rightarrow> batch_query_loop rest (data @ [v]) d
              | Inl e \<Rightarrow>
                  if e = ValueError then
                    batch_query_loop rest (data @ [PyNone])
                      (d\<lparr>log := log d @ [Error (''Failed to deserialize the result of '' @ k)]\<rparr>)
                  else Inl (e, d)))
      else batch_query_loop rest (data @ [PyNone]) d)"

definition RedisDatabase_batch_query ::
  "('q, 't, 'q rhash) db \<Rightarrow> key list
   \<Rightarrow> (pyexn \<times> ('q, 't, 'q rhash) db) + ('q pyval list \<times> ('q, 't, 'q rhash) db)" where
  "RedisDatabase_batch_query d keys =
     (if keys = [] then Inr ([], d)
      else batch_query_loop (zip keys (hmget (database d) keys)) [] d)"

definition RedisDatabase_query_keys :: "('q, 't, 'q rhash) db \<Rightarrow> key list" where
  "RedisDatabase_query_keys d = hkeys (database d)"

definition RedisDatabase_commit_impl :: "key \<Rightarrow> 'q pyval \<Rightarrow> 'q rhash \<Rightarrow> bool \<times> 'q rhash" where
  "RedisDatabase_commit_impl k v s = (True, hset k (pickle_dumps v) s)"


definition RedisDatabase_count :: "('q, 't, 'q rhash) db \<Rightarrow> nat" where
  "RedisDatabase_count d = length (hkeys (database d))"

section \<open>Rebuilding the cache and the code hash set from loaded data\<close>

text \<open>
  \<^verbatim>\<open>query_all\<close>, \<^verbatim>\<open>init_best_cache\<close> and \<^verbatim>\<open>init_code_hash_set\<close> of the base class,
  on the list \<^verbatim>\<open>batch_query(query_keys())\<close> returned. The \<open>i\<close>-th insertion of
  \<^verbatim>\<open>init_best_cache\<close> reads the clock as \<open>clock i\<close>.
\<close>

definition not_None :: "'q pyval list \<Rightarrow> 'q pyval list" where
  "not_None vs = filter (\<lambda>v. v \<noteq> PyNone) vs"

fun valid_HLSResult :: "'q pyval \<Rightarrow> bool" where
  "valid_HLSResult (PyObj r) = (cls r = HLSResult \<and> valid r)"
| "valid_HLSResult _ = False"

fun cache_all ::
  "(nat \<Rightarrow> 't) \<Rightarrow> nat \<Rightarrow> 'q pyval list \<Rightarrow> ('q, 't, 's) db \<Rightarrow> ('q, 't, 's) db" where
  "cache_all clock i [] d = d"
| "cache_all clock i (v # vs) d =
     cache_all clock (Suc i) vs
       (case v of
          PyObj r \<Rightarrow> d\<lparr>best_cache := pq_put (quality r, clock i, r) (best_cache d)\<rparr>
        | _ \<Rightarrow> d)"

definition init_best_cache ::
  "(nat \<Rightarrow> 't) \<Rightarrow> 'q pyval list \<Rightarrow> ('q, 't, 's) db \<Rightarrow> ('q, 't, 's) db" where
  "init_best_cache clock query_all d =
     cache_all clock 0 (filter valid_HLSResult query_all) d"

fun hash_all :: "'q pyval list \<Rightarrow> ('q, 't, 's) db \<Rightarrow> ('q, 't, 's) db" where
  "hash_all [] d = d"
| "hash_all (v # vs) d =
     hash_all vs
       (case v of
          PyObj r \<Rightarrow>
            (if cls r = MerlinResult then
               (case code_hash r of
                  None \<Rightarrow> d
                | Some h \<Rightarrow> d\<lparr>code_hash_set := insert h (code_hash_set d)\<rparr>)
             else d)
        | _ \<Rightarrow> d)"

definition init_code_hash_set :: "'q pyval list \<Rightarrow> ('q, 't, 's) db \<Rightarrow> ('q, 't, 's) db" where
  "init_code_hash_set query_all d = hash_all query_all d"

section \<open>\<^verbatim>\<open>RedisDatabase\<close>: load and persist\<close>

definition RedisDatabase_query_all ::
  "('q, 't, 'q rhash) db
   \<Rightarrow> (pyexn \<times> ('q, 't, 'q rhash) db) + ('q pyval list \<times> ('q, 't, 'q rhash) db)" where
  "RedisDatabase_query_all d =
     (case RedisDatabase_batch_query d (RedisDatabase_query_keys d) of
        Inl x \<Rightarrow> Inl x
      | Inr (vs, d') \<Rightarrow> Inr (not_None vs, d'))"

text \<open>
  The file at \<^verbatim>\<open>db_file_path\<close> is an explicit value: the pickle of a dictionary
  from keys to byte strings, or a file on which \<^verbatim>\<open>pickle.load\<close> raises.
\<close>

datatype 'q dump_file = PickleFile "'q rhash" | BadPickle pyexn

definition RedisDatabase_init_best_cache ::
  "(nat \<Rightarrow> 't) \<Rightarrow> ('q, 't, 'q rhash) db
   \<Rightarrow> (pyexn \<times> ('q, 't, 'q rhash) db) + ('q, 't, 'q rhash) db" where
  "RedisDatabase_init_best_cache clock d =
     (if RedisDatabase_count d = 0 then Inr d
      else case RedisDatabase_query_all d of
             Inl x \<Rightarrow> Inl x
           | Inr (vs, d') \<Rightarrow> Inr (init_best_cache clock vs d'))"

definition RedisDatabase_init_code_hash_set ::
  "('q, 't, 'q rhash) db \<Rightarrow> (pyexn \<times> ('q, 't, 'q rhash) db) + ('q, 't, 'q rhash) db" where
  "RedisDatabase_init_code_hash_set d =
     (if RedisDatabase_count d = 0 then Inr d
      else case RedisDatabase_query_all d of
             Inl x \<Rightarrow> Inl x
           | Inr (vs, d') \<Rightarrow> Inr (init_code_hash_set vs d'))"

definition RedisDatabase_load ::
  "(nat \<Rightarrow> 't) \<Rightarrow> 'q dump_file option \<Rightarrow> ('q, 't, 'q rhash) db
   \<Rightarrow> (pyexn \<times> ('q, 't, 'q rhash) db) + ('q, 't, 'q rhash) db" where
  "RedisDatabase_load clock file d =
     (case
        (case file of
           None \<Rightarrow> Inr d
         | Some (BadPickle e) \<Rightarrow>
             if e = ValueError then
               Inl (RuntimeError, d\<lparr>log := log d @ [Error ''Failed to initialize the database'']\<rparr>)
             else Inl (e, d)
         | Some (PickleFile data) \<Rightarrow>
             (let d1 = d\<lparr>log := log d @ [Info ''Load data from an existing database'']\<rparr>
              in case hmset data (database d1) of
                   Inl e \<Rightarrow> Inl (e, d1)
                 | Inr s' \<Rightarrow> Inr (d1\<lparr>database := s'\<rparr>)))
      of
        Inl x \<Rightarrow> Inl x
      | Inr d2 \<Rightarrow>
          (case RedisDatabase_init_best_cache clock d2 of
             Inl x \<Rightarrow> Inl x
           | Inr d3 \<Rightarrow> RedisDatabase_init_code_hash_set d3))"

text \<open>
  \<^verbatim>\<open>dump_db = {key: hget(db_id, key) for key in hgetall(db_id)}\<close>, written to the
  file (\<^verbatim>\<open>hget\<close> finds every key of \<^verbatim>\<open>hgetall\<close>). Returns \<^verbatim>\<open>True\<close> and the file.
\<close>

definition RedisDatabase_persist :: "('q, 't, 'q rhash) db \<Rightarrow> bool \<times> 'q dump_file" where
  "RedisDatabase_persist d =
     (let dump_db =
        fold (\<lambda>k acc. case hget (database d) k of
                         Some b \<Rightarrow> AList.update k b acc
                       | None \<Rightarrow> acc)
             (hkeys (database d)) []
      in (True, PickleFile dump_db))"

section \<open>The supervising loop of \<^verbatim>\<open>launch_exploration\<close>\<close>

text \<open>The state an operation leaves, whether it returned or raised.\<close>

fun state_of :: "(pyexn \<times> 'a) + 'a \<Rightarrow> 'a" where
  "state_of (Inl (e, d)) = d"
| "state_of (Inr d) = d"

text \<open>\<open>None\<close>: the supervising loop blocks in \<^verbatim>\<open>get()\<close> and never returns.\<close>

fun launch_exploration ::
  "('q::linorder, 't::linorder) step list \<Rightarrow> ('q, 't, 'q rhash) db
   \<Rightarrow> ('q, 't, 'q rhash) db option" where
  "launch_exploration [] d = Some d"
| "launch_exploration (Commit k v t # steps) d =
     launch_exploration steps (state_of (commit RedisDatabase_commit_impl k v t d))"
| "launch_exploration (Poll # steps) d =
     (case trim_cache (best_cache_size d) (best_cache d) of
        None \<Rightarrow> None
      | Some q \<Rightarrow> launch_exploration steps (d\<lparr>best_cache := q\<rparr>))"

section \<open>The local-file backend: \<^verbatim>\<open>PickleDatabase\<close>\<close>

text \<open>
  The \<^verbatim>\<open>pickledb\<close> handle is the dictionary it keeps in memory. Its \<^verbatim>\<open>get\<close> returns
  \<^verbatim>\<open>False\<close> for a key it does not hold, which is what the \<^verbatim>\<open>isinstance(value, bool)\<close>
  tests of the source look for. The lock only serialises threads.
\<close>

type_synonym 'q pickledb = "(key \<times> 'q pyval) list"

definition pickledb_get :: "'q pickledb \<Rightarrow> key \<Rightarrow> 'q pyval" where
  "pickledb_get s k = (case map_of s k of None \<Rightarrow> PyBool False | Some v \<Rightarrow> v)"

definition pickledb_set :: "key \<Rightarrow> 'q pyval \<Rightarrow> 'q pickledb \<Rightarrow> 'q pickledb" where
  "pickledb_set k v s = AList.update k v s"

definition pickledb_getall :: "'q pickledb \<Rightarrow> key list" where
  "pickledb_getall s = map fst s"

definition pickledb_totalkeys :: "'q pickledb \<Rightarrow> nat" where
  "pickledb_totalkeys s = length s"

text \<open>The JSON file \<^verbatim>\<open>pickledb\<close> reads and dumps, or a file that is not JSON.\<close>

datatype 'q json_file = JsonFile "'q pickledb" | BadJson

definition PickleDatabase_init ::
  "int \<Rightarrow> 'q json_file option \<Rightarrow> pyexn + ('q, 't, 'q pickledb) db" where
  "PickleDatabase_init cache_size file =
     (case file of
        None \<Rightarrow> Inr (Database_init cache_size [])
      | Some (JsonFile kvs) \<Rightarrow> Inr (Database_init cache_size kvs)
      | Some BadJson \<Rightarrow> Inl RuntimeError)"

definition PickleDatabase_query :: "('q, 't, 'q pickledb) db \<Rightarrow> key \<Rightarrow> 'q pyval" where
  "PickleDatabase_query d k =
     (let value = pickledb_get (database d) k
      in if isinstance_bool value then PyNone else value)"

definition PickleDatabase_batch_query ::
  "('q, 't, 'q pickledb) db \<Rightarrow> key list \<Rightarrow> 'q pyval list" where
  "PickleDatabase_batch_query d keys =
     (if keys = [] then []
      else map (\<lambda>k. let value = pickledb_get (database d) k
                     in if isinstance_bool value then PyNone else value) keys)"

definition PickleDatabase_query_keys :: "('q, 't, 'q pickledb) db \<Rightarrow> key list" where
  "PickleDatabase_query_keys d = pickledb_getall (database d)"

definition PickleDatabase_commit_impl ::
  "key \<Rightarrow> 'q pyval \<Rightarrow> 'q pickledb \<Rightarrow> bool \<times> 'q pickledb" where
  "PickleDatabase_commit_impl k v s = (True, pickledb_set k v s)"


definition PickleDatabase_count :: "('q, 't, 'q pickledb) db \<Rightarrow> nat" where
  "PickleDatabase_count d = pickledb_totalkeys (database d)"

definition PickleDatabase_query_all :: "('q, 't, 'q pickledb) db \<Rightarrow> 'q pyval list" where
  "PickleDatabase_query_all d =
     not_None (PickleDatabase_batch_query d (PickleDatabase_query_keys d))"

text \<open>
  \<^verbatim>\<open>jsonpickle.encode\<close> gives a string; \<^verbatim>\<open>jsonpickle.decode\<close> gives the value back
  from such a string, raises \<^verbatim>\<open>ValueError\<close> on a string that is not JSON, and
  \<^verbatim>\<open>TypeError\<close> on what is not a string.
\<close>

definition jsonpickle_encode :: "'q pyval \<Rightarrow> 'q pyval" where
  "jsonpickle_encode v = PyStr (Encoded v)"

fun jsonpickle_decode :: "'q pyval \<Rightarrow> pyexn + 'q pyval" where
  "jsonpickle_decode (PyStr (Encoded v)) = Inr v"
| "jsonpickle_decode (PyStr (Text x)) = Inl ValueError"
| "jsonpickle_decode _ = Inl TypeError"

fun decode_loop :: "key list \<Rightarrow> 'q pickledb \<Rightarrow> (pyexn \<times> 'q pickledb) + 'q pickledb" where
  "decode_loop [] s = Inr s"
| "decode_loop (k # ks) s =
     (case jsonpickle_decode (pickledb_get s k) of
        Inl e \<Rightarrow> Inl (e, s)
      | Inr obj \<Rightarrow> decode_loop ks (pickledb_set k obj s))"

definition PickleDatabase_load ::
  "(nat \<Rightarrow> 't) \<Rightarrow> ('q, 't, 'q pickledb) db
   \<Rightarrow> (pyexn \<times> ('q, 't, 'q pickledb) db) + ('q, 't, 'q pickledb) db" where
  "PickleDatabase_load clock d =
     (case decode_loop (pickledb_getall (database d)) (database d) of
        Inl (e, s') \<Rightarrow>
          if e = ValueError then
            Inl (RuntimeError,
                 d\<lparr>database := s',
                   log := log d @ [Error ''Failed to load the data from the database'']\<rparr>)
          else Inl (e, d\<lparr>database := s'\<rparr>)
      | Inr s' \<Rightarrow>
          (let d1 = d\<lparr>database := s',
                      log := log d @ [Info ''Load data from an existing database'']\<rparr>;
               d2 = (if PickleDatabase_count d1 = 0 then d1
                     else init_best_cache clock (PickleDatabase_query_all d1) d1)
           in Inr (if PickleDatabase_count d2 = 0 then d2
                   else init_code_hash_set (PickleDatabase_query_all d2) d2)))"

text \<open>
  \<^verbatim>\<open>persist\<close> replaces every value by its encoding, in the live handle, and dumps
  the handle. Returns what \<^verbatim>\<open>dump()\<close> returns, the file, and the store.
\<close>

definition PickleDatabase_persist ::
  "('q, 't, 'q pickledb) db \<Rightarrow> bool \<times> 'q json_file \<times> ('q, 't, 'q pickledb) db" where
  "PickleDatabase_persist d =
     (let s' = fold (\<lambda>k s. pickledb_set k (jsonpickle_encode (pickledb_get s k)) s)
                    (pickledb_getall (database d)) (database d)
      in (True, JsonFile s', d\<lparr>database := s'\<rparr>))"

section \<open>The end of the main flow\<close>

text \<open>Python's \<^verbatim>\<open>str\<close> of a natural number.\<close>

definition digit_char :: "nat \<Rightarrow> char" where
  "digit_char n = ''0123456789'' ! n"

function str_nat :: "nat \<Rightarrow> string" where
  "str_nat n = (if n < 10 then [digit_char n] else str_nat (n div 10) @ [digit_char (n mod 10)])"
  by pat_completeness auto
termination
  by (relation "measure id") auto

declare str_nat.simps [simp del]

text \<open>
  The loop that creates the outputs, on the best cache. \<open>job_ok idx\<close>: the
  evaluator's \<^verbatim>\<open>create_job()\<close> returns a job in the iteration that fills slot \<open>idx\<close>.
  The result is the list \<^verbatim>\<open>output\<close>; its \<open>i\<close>-th element went to directory \<open>i\<close>.
\<close>

function materialize ::
  "(nat \<Rightarrow> bool) \<Rightarrow> nat \<Rightarrow> ('q::linorder, 't::linorder) entry list \<Rightarrow> 'q result list
   \<Rightarrow> pyexn + 'q result list" where
  "materialize job_ok idx q output =
     (case pq_get q of
        None \<Rightarrow> Inr output
      | Some (e, q') \<Rightarrow>
          if \<not> job_ok idx then Inl RuntimeError
          else if point (entry_result e) = None then Inl AssertionError
          else materialize job_ok (Suc idx) q'
                 (output @ [(entry_result e)\<lparr>path := Some (str_nat idx)\<rparr>]))"
  by pat_completeness auto
termination
  by (relation "measure (\<lambda>(job_ok, idx, q, output). length q)") (auto simp: pq_get_length)

declare materialize.simps [simp del]

text \<open>
  The main flow from the end of the exploration on:
  \<^verbatim>\<open>db.commit_best()\<close>, \<^verbatim>\<open>db.persist()\<close>, then the outputs. Neither \<^verbatim>\<open>Database\<close> nor
  \<^verbatim>\<open>RedisDatabase\<close> defines \<^verbatim>\<open>commit_best\<close>, and neither defines \<^verbatim>\<open>__getattr__\<close>: the
  attribute lookup raises \<^verbatim>\<open>AttributeError\<close>.
\<close>

definition commit_best ::
  "('q, 't, 'q rhash) db \<Rightarrow> (pyexn \<times> ('q, 't, 'q rhash) db) + ('q, 't, 'q rhash) db" where
  "commit_best d = Inl (AttributeError, d)"

text \<open>
  How the exploration ended: every worker finished, or \<^verbatim>\<open>KeyboardInterrupt\<close> was
  raised in the supervising loop and caught by \<^verbatim>\<open>except KeyboardInterrupt: pass\<close>.
\<close>

datatype ending = WorkersDone | KeyboardInterrupt

text \<open>
  The state is the store and the file at \<^verbatim>\<open>db_path\<close>. A raise leaves both as they
  are at that moment; a normal end returns them with the list of outputs.
\<close>

definition after_exploration ::
  "ending \<Rightarrow> (nat \<Rightarrow> bool) \<Rightarrow> ('q::linorder, 't::linorder, 'q rhash) db \<Rightarrow> 'q dump_file option
   \<Rightarrow> (pyexn \<times> ('q, 't, 'q rhash) db \<times> 'q dump_file option)
      + ('q result list \<times> ('q, 't, 'q rhash) db \<times> 'q dump_file option)" where
  "after_exploration how job_ok d file =
     (case commit_best d of
        Inl (e, d') \<Rightarrow> Inl (e, d', file)
      | Inr d' \<Rightarrow>
          (case RedisDatabase_persist d' of
             (ok, file') \<Rightarrow>
               (case materialize job_ok 0 (best_cache d') [] of
                  Inl e \<Rightarrow> Inl (e, d', Some file')
                | Inr output \<Rightarrow> Inr (output, d'\<lparr>best_cache := []\<rparr>, Some file'))))"

section \<open>Auxiliary definitions and example values\<close>

text \<open>A result object with the given class, quality, validity and code hash.\<close>

definition mk_result :: "result_class \<Rightarrow> 'q \<Rightarrow> bool \<Rightarrow> string option \<Rightarrow> 'q result" where
  "mk_result c q ok h =
     \<lparr>cls = c, point = Some 0, ret_code = 0, valid = ok, path = None, quality = q,
      code_hash = h\<rparr>"

text \<open>
  The entries a batch contributes to the best cache: one per pair whose value is a
  result object, in the order of the batch.
\<close>

fun result_entries ::
  "(nat \<Rightarrow> 't) \<Rightarrow> nat \<Rightarrow> (key \<times> 'q pyval) list \<Rightarrow> ('q, 't) entry list" where
  "result_entries clock i [] = []"
| "result_entries clock i ((k, v) # ps) =
     (case v of PyObj r \<Rightarrow> [(quality r, clock i, r)] | _ \<Rightarrow> [])
     @ result_entries clock (Suc i) ps"

text \<open>Successive calls of \<^verbatim>\<open>add_code_hash\<close>, with what each returned.\<close>

fun add_code_hashes :: "string list \<Rightarrow> ('q, 't, 's) db \<Rightarrow> bool list \<times> ('q, 't, 's) db" where
  "add_code_hashes [] d = ([], d)"
| "add_code_hashes (h # hs) d =
     (case add_code_hash h d of
        (r, d1) \<Rightarrow> (case add_code_hashes hs d1 of (rs, d2) \<Rightarrow> (r # rs, d2)))"

text \<open>
  A new \<^verbatim>\<open>RedisDatabase\<close> after \<^verbatim>\<open>load()\<close> of a file that holds one
  \<^verbatim>\<open>MerlinResult\<close> with code hash \<^verbatim>\<open>abc\<close>.
\<close>

definition loaded_store :: "(int, nat, int rhash) db" where
  "loaded_store =
     state_of (RedisDatabase_load (\<lambda>i. i)
       (Some (PickleFile
          [(''p1'', pickle_dumps (PyObj (mk_result MerlinResult 5 True (Some ''abc''))))]))
       (RedisDatabase_init 1))"

text \<open>
  The entries of a best cache in the order in which successive \<^verbatim>\<open>get()\<close> calls
  return them, and the outputs made of a list of entries: the \<open>j\<close>-th gets the path
  \<^verbatim>\<open>str(idx + j)\<close>.
\<close>

function drain :: "('q::linorder, 't::linorder) entry list \<Rightarrow> ('q, 't) entry list" where
  "drain q = (case pq_get q of None \<Rightarrow> [] | Some (m, q') \<Rightarrow> m # drain q')"
  by pat_completeness auto
termination
  by (relation "measure length") (auto simp: pq_get_length)

declare drain.simps [simp del]

fun slots :: "nat \<Rightarrow> ('q, 't) entry list \<Rightarrow> 'q result list" where
  "slots idx [] = []"
| "slots idx (e # es) = (entry_result e)\<lparr>path := Some (str_nat idx)\<rparr> # slots (Suc idx) es"


text \<open>A best cache of two entries.\<close>

definition two_cached :: "(int, nat) entry list" where
  "two_cached =
     [(30, 1, mk_result HLSResult 30 True None), (10, 2, mk_result HLSResult 10 True None)]"

text \<open>Two workers' commits, the better result first; no iteration of the loop.\<close>

definition two_commits :: "(int, nat) step list" where
  "two_commits =
     [Commit ''p1'' (PyObj (mk_result HLSResult 30 True None)) 1,
      Commit ''p2'' (PyObj (mk_result HLSResult 10 True None)) 2]"

text \<open>
  A \<^verbatim>\<open>RedisDatabase\<close> whose hash holds a pickled result under \<^verbatim>\<open>p0\<close> and, under
  \<^verbatim>\<open>p1\<close>, bytes that are no pickle (\<^verbatim>\<open>pickle.loads\<close> raises \<^verbatim>\<open>UnpicklingError\<close>).
\<close>

definition damaged_store :: "(int, nat, int rhash) db" where
  "damaged_store =
     Database_init 1
       [(''p0'', pickle_dumps (PyObj (mk_result HLSResult 5 True None))),
        (''p1'', Damaged UnpicklingError)]"

text \<open>
  The entries the commits of a schedule put into the best cache, in order: one for
  each committed result object, whatever its \<^verbatim>\<open>valid\<close> flag.
\<close>

fun committed_entries :: "('q, 't) step list \<Rightarrow> ('q, 't) entry list" where
  "committed_entries [] = []"
| "committed_entries (Commit k (PyObj r) t # steps) = (quality r, t, r) # committed_entries steps"
| "committed_entries (s # steps) = committed_entries steps"

text \<open>
  Every entry of \<open>ev\<close> has at least \<open>k\<close> entries of the cache \<open>c\<close> of a quality not
  below its own.
\<close>

definition dominated ::
  "nat \<Rightarrow> ('q::linorder, 't) entry list \<Rightarrow> ('q, 't) entry list \<Rightarrow> bool" where
  "dominated k c ev \<longleftrightarrow> (\<forall>x \<in> set ev. k \<le> length (filter (\<lambda>y. fst x \<le> fst y) c))"

text \<open>
  Schedules: four commits of qualities 10, 30, 20, 30; two commits of equal quality
  followed by an iteration of the supervising loop; one commit of a result that is
  not valid, followed by an iteration.
\<close>

definition four_commits :: "(int, nat) step list" where
  "four_commits =
     [Commit ''p1'' (PyObj (mk_result HLSResult 10 True None)) 1,
      Commit ''p2'' (PyObj (mk_result HLSResult 30 True None)) 2,
      Commit ''p3'' (PyObj (mk_result HLSResult 20 True None)) 3,
      Commit ''p4'' (PyObj (mk_result HLSResult 30 True None)) 4]"

definition tie_commits :: "(int, nat) step list" where
  "tie_commits =
     [Commit ''p1'' (PyObj (mk_result HLSResult 5 True (Some ''first''))) 1,
      Commit ''p2'' (PyObj (mk_result HLSResult 5 True (Some ''second''))) 2,
      Poll]"

definition invalid_commit :: "(int, nat) step list" where
  "invalid_commit = [Commit ''p1'' (PyObj (mk_result HLSResult 7 False None)) 1, Poll]"

text \<open>
  What a slot of \<^verbatim>\<open>batch_query\<close> holds for the bytes \<^verbatim>\<open>hmget\<close> returned, and the
  bytes on which the source's handler does not let an exception through.
\<close>

fun slot_value :: "'q bytes option \<Rightarrow> 'q pyval" where
  "slot_value (Some (Pickled v)) = v"
| "slot_value _ = PyNone"

fun readable :: "'q bytes option \<Rightarrow> bool" where
  "readable (Some (Damaged e)) = (e = ValueError)"
| "readable _ = True"

text \<open>
  Successive commits through a given \<^verbatim>\<open>commit_impl\<close>, the \<open>i\<close>-th at clock reading
  \<open>clock i\<close>; a commit that raises leaves the store as it is at the raise.
\<close>

fun commit_all ::
  "(key \<Rightarrow> 'q pyval \<Rightarrow> 's \<Rightarrow> bool \<times> 's) \<Rightarrow> (nat \<Rightarrow> 't) \<Rightarrow> nat \<Rightarrow> (key \<times> 'q pyval) list
   \<Rightarrow> ('q, 't, 's) db \<Rightarrow> ('q, 't, 's) db" where
  "commit_all impl clock i [] d = d"
| "commit_all impl clock i ((k, v) # ps) d =
     commit_all impl clock (Suc i) ps (state_of (commit impl k v (clock i) d))"

text \<open>A \<^verbatim>\<open>pickledb\<close> dictionary with every value replaced by its encoding.\<close>

definition encoded :: "'q pickledb \<Rightarrow> 'q pickledb" where
  "encoded s = map (\<lambda>(k, v). (k, jsonpickle_encode v)) s"

section \<open>Committing\<close>

lemma mk_result_sel [simp]:
  "cls (mk_result c q ok h) = c" "quality (mk_result c q ok h) = q"
  "valid (mk_result c q ok h) = ok" "code_hash (mk_result c q ok h) = h"
  "point (mk_result c q ok h) = Some 0" "path (mk_result c q ok h) = None"
  by (simp_all add: mk_result_def)

text \<open>
  Claim C7. \<^verbatim>\<open>commit(key, result)\<close> raises \<^verbatim>\<open>RuntimeError\<close> when the backend's
  \<^verbatim>\<open>commit_impl\<close> reports failure, and the best cache is then as it was; when
  \<^verbatim>\<open>commit_impl\<close> reports success, \<^verbatim>\<open>commit\<close> returns, the backend holds what
  \<^verbatim>\<open>commit_impl\<close> wrote, and the best cache gains the entry
  \<open>(quality, now, result)\<close> exactly when the value is a \<^verbatim>\<open>Result\<close> object.
\<close>

theorem commit_fatal_or_cached:
  "(\<not> fst (commit_impl k v (database d)) \<longrightarrow>
      (\<exists>d'. commit commit_impl k v now d = Inl (RuntimeError, d')
            \<and> best_cache d' = best_cache d))
   \<and> (fst (commit_impl k v (database d)) \<longrightarrow>
      (\<exists>d'. commit commit_impl k v now d = Inr d'
            \<and> database d' = snd (commit_impl k v (database d))
            \<and> (isinstance_Result v \<longrightarrow>
                  (\<exists>r. v = PyObj r \<and> best_cache d' = best_cache d @ [(quality r, now, r)]))
            \<and> (\<not> isinstance_Result v \<longrightarrow> best_cache d' = best_cache d)))"
  by (cases "commit_impl k v (database d)"; cases v)
     (auto simp: commit_def update_best_def pq_put_def)

theorem commit_fatal_or_cached_witness:
  "(\<exists>d'. commit (\<lambda>k v s. (False, s)) ''p1'' (PyObj (mk_result HLSResult (5::int) True None))
            (1::nat) (RedisDatabase_init 1) = Inl (RuntimeError, d') \<and> best_cache d' = [])
   \<and> (\<exists>d'. commit RedisDatabase_commit_impl ''p1'' (PyObj (mk_result HLSResult (5::int) True None))
            (1::nat) (RedisDatabase_init 1) = Inr d'
          \<and> best_cache d' = [(5, 1, mk_result HLSResult 5 True None)])
   \<and> (\<exists>d'. commit RedisDatabase_commit_impl ''p1'' (PyBool True :: int pyval)
            (1::nat) (RedisDatabase_init 1) = Inr d' \<and> best_cache d' = [])"
  using commit_fatal_or_cached[of "\<lambda>k v s. (False, s)" "''p1''"
          "PyObj (mk_result HLSResult (5::int) True None)" "RedisDatabase_init 1" "1::nat"]
        commit_fatal_or_cached[of RedisDatabase_commit_impl "''p1''"
          "PyObj (mk_result HLSResult (5::int) True None)" "RedisDatabase_init 1" "1::nat"]
        commit_fatal_or_cached[of RedisDatabase_commit_impl "''p1''"
          "PyBool True :: int pyval" "RedisDatabase_init 1" "1::nat"]
  by (auto simp: RedisDatabase_commit_impl_def RedisDatabase_init_def Database_init_def)

section \<open>Committing a batch\<close>

text \<open>Dictionaries built and updated pair by pair.\<close>

lemma map_of_fold_update:
  "map_of (fold (\<lambda>(k, v). AList.update k (f v)) ps s) = map_of s ++ map_of (rev (map (\<lambda>(k, v). (k, f v)) ps))"
  by (induction ps arbitrary: s) (auto simp: update_conv' map_add_def fun_eq_iff split: option.splits)

lemma dom_fold_update:
  "fst ` set (fold (\<lambda>(k, v). AList.update k (f v)) ps s) = fst ` set s \<union> fst ` set ps"
proof (induction ps arbitrary: s)
  case Nil
  show ?case by simp
next
  case (Cons p ps)
  obtain k v where p: "p = (k, v)" by (cases p)
  show ?case using Cons.IH[of "AList.update k (f v) s"]
    by (simp add: p dom_update)
qed

lemma distinct_fold_update:
  "distinct (map fst s) \<Longrightarrow> distinct (map fst (fold (\<lambda>(k, v). AList.update k (f v)) ps s))"
  by (induction ps arbitrary: s) (auto simp: distinct_update)

lemma length_fold_update_nil:
  "length (fold (\<lambda>(k, v). AList.update k (f v)) ps []) = card (fst ` set ps)"
proof -
  let ?r = "fold (\<lambda>(k, v). AList.update k (f v)) ps []"
  have "distinct (map fst ?r)" by (rule distinct_fold_update) simp
  then have "length ?r = card (set (map fst ?r))" by (metis distinct_card length_map)
  also have "set (map fst ?r) = fst ` set ps" using dom_fold_update[of f ps "[]"] by simp
  finally show ?thesis .
qed





lemma result_entries_results:
  "map (PyObj \<circ> entry_result) (result_entries clock i ps) = filter isinstance_Result (map snd ps)"
  by (induction clock i ps rule: result_entries.induct)
     (auto simp: entry_result_def split: pyval.splits)



lemma fold_update_Nil_iff:
  "fold (\<lambda>(k, v). AList.update k (f v)) ps [] = [] \<longleftrightarrow> ps = []"
  using length_fold_update_nil[of f ps] by (cases ps) (auto simp: card_eq_0_iff)











section \<open>The code hash set\<close>

lemma add_code_hash_eq:
  "add_code_hash h d = (h \<notin> code_hash_set d, d\<lparr>code_hash_set := insert h (code_hash_set d)\<rparr>)"
  by (simp add: add_code_hash_def insert_absorb)

lemma add_code_hashes_Cons:
  "add_code_hashes (h # hs) d =
     (let d1 = d\<lparr>code_hash_set := insert h (code_hash_set d)\<rparr>
      in (((h \<notin> code_hash_set d) # fst (add_code_hashes hs d1)), snd (add_code_hashes hs d1)))"
  by (simp add: add_code_hash_eq Let_def split: prod.splits)

lemma add_code_hashes_set:
  "code_hash_set (snd (add_code_hashes hs d)) = code_hash_set d \<union> set hs"
proof (induction hs arbitrary: d)
  case Nil
  show ?case by simp
next
  case (Cons h hs)
  show ?case
    by (simp only: add_code_hashes_Cons Let_def snd_conv Cons.IH) simp
qed

lemma add_code_hashes_nth:
  "i < length hs \<Longrightarrow>
     fst (add_code_hashes hs d) ! i \<longleftrightarrow> hs ! i \<notin> code_hash_set d \<union> set (take i hs)"
proof (induction hs arbitrary: d i)
  case Nil
  then show ?case by simp
next
  case (Cons h hs)
  show ?case
  proof (cases i)
    case 0
    then show ?thesis by (simp only: add_code_hashes_Cons Let_def fst_conv) simp
  next
    case (Suc j)
    then have j: "j < length hs" using Cons.prems by simp
    show ?thesis
      using Cons.IH[OF j, of "d\<lparr>code_hash_set := insert h (code_hash_set d)\<rparr>"] Suc
      by (simp only: add_code_hashes_Cons Let_def fst_conv) auto
  qed
qed

text \<open>
  Claim C4, amended. For every store and every sequence of calls of
  \<^verbatim>\<open>add_code_hash\<close>: a call returns \<^verbatim>\<open>True\<close> exactly when its hash is neither in the
  set the store started with (\<^verbatim>\<open>load()\<close> fills it from the persisted results) nor
  the hash of an earlier call; the set ends as the starting set with the hashes of
  the calls; a call that returns \<^verbatim>\<open>False\<close> leaves the store as it was; and a call
  repeated at once returns \<^verbatim>\<open>False\<close>.
\<close>

theorem add_code_hash_once:
  "(\<forall>i < length hs. fst (add_code_hashes hs d) ! i
        \<longleftrightarrow> hs ! i \<notin> code_hash_set d \<and> hs ! i \<notin> set (take i hs))
   \<and> code_hash_set (snd (add_code_hashes hs d)) = code_hash_set d \<union> set hs
   \<and> (\<not> fst (add_code_hash h d) \<longrightarrow> snd (add_code_hash h d) = d)
   \<and> \<not> fst (add_code_hash h (snd (add_code_hash h d)))"
  by (simp add: add_code_hashes_nth add_code_hashes_set add_code_hash_eq insert_absorb)

theorem add_code_hash_once_witness:
  "fst (add_code_hashes [''a'', ''b'', ''a''] (RedisDatabase_init 1 :: (int, nat, int rhash) db)) ! 0
   \<and> fst (add_code_hashes [''a'', ''b'', ''a''] (RedisDatabase_init 1 :: (int, nat, int rhash) db)) ! 1
   \<and> \<not> fst (add_code_hashes [''a'', ''b'', ''a''] (RedisDatabase_init 1 :: (int, nat, int rhash) db)) ! 2
   \<and> code_hash_set (snd (add_code_hashes [''a'', ''b'', ''a'']
         (RedisDatabase_init 1 :: (int, nat, int rhash) db))) = {''a'', ''b''}"
  using add_code_hash_once[of "[''a'', ''b'', ''a'']"
          "RedisDatabase_init 1 :: (int, nat, int rhash) db" "''a''"]
  by (simp add: RedisDatabase_init_def Database_init_def All_less_Suc numeral_2_eq_2 insert_commute)

text \<open>
  The claim as stated, without the condition on the starting set, fails on a store
  that loaded the hash: the first call with \<^verbatim>\<open>abc\<close> returns \<^verbatim>\<open>False\<close>.
\<close>

theorem add_code_hash_first_call_counterexample:
  "\<not> isl (RedisDatabase_load (\<lambda>i. i)
       (Some (PickleFile [(''p1'', pickle_dumps (PyObj (mk_result MerlinResult (5::int) True (Some ''abc''))))]))
       (RedisDatabase_init 1 :: (int, nat, int rhash) db))
   \<and> fst (add_code_hash ''abc'' loaded_store) = False"
  by code_simp

section \<open>Queries of the local-file backend\<close>

lemma PickleDatabase_batch_query_map:
  "PickleDatabase_batch_query d keys = map (PickleDatabase_query d) keys"
  by (simp add: PickleDatabase_batch_query_def PickleDatabase_query_def)

lemma isinstance_bool_iff: "isinstance_bool v \<longleftrightarrow> (\<exists>b. v = PyBool b)"
  by (cases v) auto

text \<open>
  Claim C10, amended. In the local-file backend \<^verbatim>\<open>query\<close> returns \<^verbatim>\<open>None\<close> exactly
  when the key is not stored, or the value stored under it is a boolean, or the
  value stored under it is \<^verbatim>\<open>None\<close> itself; \<^verbatim>\<open>batch_query\<close> returns the list of what
  \<^verbatim>\<open>query\<close> returns for each key; and after a boolean has been committed under a
  key, \<^verbatim>\<open>query\<close> on that key returns \<^verbatim>\<open>None\<close>, as for a key never committed.
\<close>

theorem PickleDatabase_query_None_iff:
  "(PickleDatabase_query d k = PyNone \<longleftrightarrow>
      map_of (database d) k = None
      \<or> (\<exists>b. map_of (database d) k = Some (PyBool b))
      \<or> map_of (database d) k = Some PyNone)
   \<and> PickleDatabase_batch_query d keys = map (PickleDatabase_query d) keys
   \<and> (\<exists>d'. commit PickleDatabase_commit_impl k (PyBool b) now d = Inr d'
          \<and> map_of (database d') k = Some (PyBool b)
          \<and> PickleDatabase_query d' k = PyNone)"
  by (auto simp: PickleDatabase_batch_query_map PickleDatabase_query_def pickledb_get_def
      isinstance_bool_iff Let_def commit_def PickleDatabase_commit_impl_def pickledb_set_def
      update_conv' split: option.splits)

theorem PickleDatabase_query_None_iff_witness:
  "PickleDatabase_query (Database_init 1 [(''p1'', PyBool True), (''p2'', PyObj (mk_result HLSResult (5::int) True None))]
      :: (int, nat, int pickledb) db) ''p1'' = PyNone
   \<and> PickleDatabase_query (Database_init 1 [(''p1'', PyBool True), (''p2'', PyObj (mk_result HLSResult (5::int) True None))]
      :: (int, nat, int pickledb) db) ''p3'' = PyNone
   \<and> PickleDatabase_batch_query (Database_init 1 [(''p1'', PyBool True), (''p2'', PyObj (mk_result HLSResult (5::int) True None))]
      :: (int, nat, int pickledb) db) [''p2'', ''p1'', ''p3'']
     = [PyObj (mk_result HLSResult 5 True None), PyNone, PyNone]"
  using PickleDatabase_query_None_iff[of "Database_init 1 [(''p1'', PyBool True), (''p2'', PyObj (mk_result HLSResult (5::int) True None))]
      :: (int, nat, int pickledb) db" "''p1''" "[''p2'', ''p1'', ''p3'']"]
    PickleDatabase_query_None_iff[of "Database_init 1 [(''p1'', PyBool True), (''p2'', PyObj (mk_result HLSResult (5::int) True None))]
      :: (int, nat, int pickledb) db" "''p3''" "[]"]
  by (simp add: Database_init_def) (simp add: PickleDatabase_query_def pickledb_get_def)

text \<open>
  The claim as stated, \<^verbatim>\<open>None\<close> exactly when the stored value is a boolean, fails
  after \<^verbatim>\<open>commit(key, None)\<close>: the stored value is no boolean and \<^verbatim>\<open>query\<close> returns
  \<^verbatim>\<open>None\<close>.
\<close>

theorem PickleDatabase_query_None_counterexample:
  "\<not> isl (commit PickleDatabase_commit_impl ''p1'' (PyNone :: int pyval) (1::nat) (Database_init 1 []))
   \<and> map_of (database (state_of (commit PickleDatabase_commit_impl ''p1'' (PyNone :: int pyval) (1::nat)
        (Database_init 1 [])))) ''p1'' = Some PyNone
   \<and> \<not> isinstance_bool (PyNone :: int pyval)
   \<and> PickleDatabase_query (state_of (commit PickleDatabase_commit_impl ''p1'' (PyNone :: int pyval) (1::nat)
        (Database_init 1 []))) ''p1'' = PyNone"
  by (simp add: commit_def PickleDatabase_commit_impl_def pickledb_set_def Database_init_def
      PickleDatabase_query_def pickledb_get_def)

section \<open>The order of the outputs\<close>

lemma pq_get_None_iff: "pq_get q = None \<longleftrightarrow> q = []"
  by (simp add: pq_get_def Let_def)

lemma pq_get_in: "pq_get q = Some (m, q') \<Longrightarrow> m \<in> set q"
  by (auto simp: pq_get_def Let_def arg_min_list_in split: if_splits)

lemma pq_get_least: "pq_get q = Some (m, q') \<Longrightarrow> x \<in> set q \<Longrightarrow> entry_key m \<le> entry_key x"
  by (auto simp: pq_get_def Let_def f_arg_min_list_f split: if_splits)

lemma pq_get_mset: "pq_get q = Some (m, q') \<Longrightarrow> mset q = add_mset m (mset q')"
  by (auto simp: pq_get_def Let_def arg_min_list_in split: if_splits)

lemma pq_get_subset: "pq_get q = Some (m, q') \<Longrightarrow> set q' \<subseteq> set q"
  using set_remove1_subset[of m q] by (auto simp: pq_get_def Let_def split: if_splits)

lemma drain_None: "pq_get q = None \<Longrightarrow> drain q = []"
  by (subst drain.simps) simp

lemma drain_Some: "pq_get q = Some (m, q') \<Longrightarrow> drain q = m # drain q'"
  by (subst drain.simps) simp

lemma drain_mset: "mset (drain q) = mset q"
proof (induction q rule: drain.induct)
  case (1 q)
  show ?case
  proof (cases "pq_get q")
    case None
    then show ?thesis by (simp add: drain_None pq_get_None_iff)
  next
    case (Some a)
    obtain m q' where a: "a = (m, q')" by (cases a)
    have g: "pq_get q = Some (m, q')" using Some a by simp
    show ?thesis using "1.IH"[OF g refl]
      by (simp add: drain_Some[OF g] pq_get_mset[OF g])
  qed
qed

lemma drain_set: "set (drain q) = set q"
  using drain_mset[of q] by (metis set_mset_mset)

lemma drain_sorted: "sorted (map entry_key (drain q))"
proof (induction q rule: drain.induct)
  case (1 q)
  show ?case
  proof (cases "pq_get q")
    case None
    then show ?thesis by (simp add: drain_None)
  next
    case (Some a)
    obtain m q' where a: "a = (m, q')" by (cases a)
    have g: "pq_get q = Some (m, q')" using Some a by simp
    have "\<forall>x \<in> set (drain q'). entry_key m \<le> entry_key x"
      using pq_get_least[OF g] pq_get_subset[OF g] by (auto simp: drain_set)
    moreover have "sorted (map entry_key (drain q'))" using "1.IH"[OF g refl] .
    ultimately show ?thesis by (simp add: drain_Some[OF g])
  qed
qed


lemma materialize_None: "pq_get q = None \<Longrightarrow> materialize job_ok idx q out = Inr out"
  by (simp add: materialize.simps[of job_ok idx q out])

lemma materialize_Some:
  "pq_get q = Some (m, q') \<Longrightarrow> job_ok idx \<Longrightarrow> point (entry_result m) \<noteq> None \<Longrightarrow>
     materialize job_ok idx q out =
       materialize job_ok (Suc idx) q' (out @ [(entry_result m)\<lparr>path := Some (str_nat idx)\<rparr>])"
  by (auto simp: materialize.simps[of job_ok idx q out])

lemma materialize_drain:
  "\<forall>i. job_ok i \<Longrightarrow> \<forall>e \<in> set q. point (entry_result e) \<noteq> None \<Longrightarrow>
     materialize job_ok idx q out = Inr (out @ slots idx (drain q))"
proof (induction job_ok idx q out rule: materialize.induct)
  case (1 job_ok idx q out)
  show ?case
  proof (cases "pq_get q")
    case None
    then show ?thesis by (simp add: materialize_None drain_None)
  next
    case (Some a)
    obtain m q' where a: "a = (m, q')" by (cases a)
    have g: "pq_get q = Some (m, q')" using Some a by simp
    have m: "m \<in> set q" using pq_get_in[OF g] .
    have pm: "point (entry_result m) \<noteq> None" using "1.prems"(2) m by blast
    have ok: "job_ok idx" using "1.prems"(1) by simp
    have "materialize job_ok (Suc idx) q' (out @ [(entry_result m)\<lparr>path := Some (str_nat idx)\<rparr>])
        = Inr ((out @ [(entry_result m)\<lparr>path := Some (str_nat idx)\<rparr>]) @ slots (Suc idx) (drain q'))"
    proof (rule "1.IH"[OF g refl _ pm "1.prems"(1)])
      show "\<not> \<not> job_ok idx" using ok by simp
      show "\<forall>e\<in>set q'. point (entry_result e) \<noteq> None"
        using "1.prems"(2) pq_get_subset[OF g] by blast
    qed
    then show ?thesis
      by (simp add: materialize_Some[of q m q' job_ok idx out, OF g ok pm] drain_Some[OF g])
  qed
qed


lemma slots_length: "length (slots idx es) = length es"
  by (induction es arbitrary: idx) auto

lemma slots_nth:
  "j < length es \<Longrightarrow> slots idx es ! j = (entry_result (es ! j))\<lparr>path := Some (str_nat (idx + j))\<rparr>"
  by (induction es arbitrary: idx j) (auto simp: nth_Cons split: nat.splits)

lemma sorted_key_fst:
  fixes es :: "('q::linorder, 't::linorder) entry list"
  shows "sorted (map entry_key es) \<Longrightarrow> sorted (map fst es)"
  by (induction es) (auto simp: entry_key_def less_eq_prod_def)

text \<open>
  Claim C2, amended. When the evaluator allocates every job and every cached result
  has a design point, the loop that creates the outputs returns, and its outputs are
  the entries of the best cache in ascending order of (quality, timestamp), lowest
  quality first: the \<open>j\<close>-th output is the result of the \<open>j\<close>-th entry in that order,
  with path \<^verbatim>\<open>str(j)\<close>. Slot 0 holds the retained result of lowest quality, the last
  slot the best one.
\<close>

theorem materialize_ascending:
  fixes q :: "('q::linorder, 't::linorder) entry list"
  assumes "\<forall>i. job_ok i" and "\<forall>e \<in> set q. point (entry_result e) \<noteq> None"
  shows "\<exists>es. mset es = mset q \<and> sorted (map entry_key es) \<and> sorted (map fst es)
           \<and> materialize job_ok 0 q [] = Inr (slots 0 es)
           \<and> length (slots 0 es) = length q
           \<and> (\<forall>j < length es.
                 slots 0 es ! j = (entry_result (es ! j))\<lparr>path := Some (str_nat j)\<rparr>)"
proof (intro exI[of _ "drain q"] conjI)
  show "mset (drain q) = mset q" by (rule drain_mset)
  show "sorted (map entry_key (drain q))" by (rule drain_sorted)
  then show "sorted (map fst (drain q))" by (rule sorted_key_fst)
  show "materialize job_ok 0 q [] = Inr (slots 0 (drain q))"
    using materialize_drain[OF assms, of 0 "[]"] by simp
  show "length (slots 0 (drain q)) = length q"
    using drain_mset[of q] by (metis slots_length size_mset)
  show "\<forall>j < length (drain q).
          slots 0 (drain q) ! j = (entry_result (drain q ! j))\<lparr>path := Some (str_nat j)\<rparr>"
    by (simp add: slots_nth)
qed

theorem materialize_ascending_witness:
  "\<exists>es. mset es = mset two_cached
      \<and> sorted (map entry_key es) \<and> sorted (map fst es)
      \<and> materialize (\<lambda>i. True) 0 two_cached [] = Inr (slots 0 es)
      \<and> length (slots 0 es) = length two_cached
      \<and> (\<forall>j < length es.
            slots 0 es ! j = (entry_result (es ! j))\<lparr>path := Some (str_nat j)\<rparr>)"
proof -
  have h1: "\<forall>i. (\<lambda>i. True) i" by simp
  have h2: "\<forall>e \<in> set two_cached. point (entry_result e) \<noteq> None"
    by (simp add: two_cached_def entry_result_def)
  show ?thesis using materialize_ascending[OF h1 h2] .
qed

text \<open>
  The claim as stated, highest quality first and slot 0 the best, fails: of two
  cached results of quality 30 and 10, the one of quality 10 goes to slot 0.
\<close>

theorem materialize_best_first_counterexample:
  "map_option (\<lambda>d. materialize (\<lambda>i. True) 0 (best_cache d) [])
     (launch_exploration two_commits (RedisDatabase_init 2))
   = Some (Inr [(mk_result HLSResult 10 True None)\<lparr>path := Some ''0''\<rparr>,
                (mk_result HLSResult 30 True None)\<lparr>path := Some ''1''\<rparr>])"
  by code_simp

section \<open>After the exploration\<close>

text \<open>
  Claim C3. The claim is that the store is persisted once the exploration has
  stopped, by the end of the workers or by the operator's interrupt. In the source
  the call \<^verbatim>\<open>db.commit_best()\<close> stands before \<^verbatim>\<open>db.persist()\<close>, and no class of
  \<^verbatim>\<open>database.py\<close> defines \<^verbatim>\<open>commit_best\<close>: however the exploration ended, whatever the
  store holds, the main flow raises \<^verbatim>\<open>AttributeError\<close> there, with the store and the
  file at the database path as they were. \<^verbatim>\<open>persist()\<close> is not reached.
\<close>

theorem after_exploration_raises:
  "after_exploration how job_ok d file = Inl (AttributeError, d, file)"
  by (simp add: after_exploration_def commit_best_def)

section \<open>Queries of the networked backend on damaged bytes\<close>

text \<open>
  Claim C8. The claim is that \<^verbatim>\<open>query\<close> on a key whose stored bytes are corrupt
  returns \<^verbatim>\<open>None\<close> and logs, without raising. The handler of the source is
  \<^verbatim>\<open>except ValueError\<close>; on bytes that are no pickle \<^verbatim>\<open>pickle.loads\<close> raises
  \<^verbatim>\<open>pickle.UnpicklingError\<close>, which is no \<^verbatim>\<open>ValueError\<close>, and \<^verbatim>\<open>query\<close> raises it,
  with nothing logged.
\<close>

theorem RedisDatabase_query_damaged:
  "RedisDatabase_query damaged_store ''p1'' = Inl (UnpicklingError, damaged_store)"
  by (simp add: RedisDatabase_query_def damaged_store_def Database_init_def hexists_def hget_def)

text \<open>
  Claim C9. The claim is that \<^verbatim>\<open>batch_query\<close> returns one slot per key, with
  \<^verbatim>\<open>None\<close> for a missing or corrupt key. With the same handler, \<^verbatim>\<open>batch_query\<close> on a
  list of keys one of which holds bytes that are no pickle returns no list: it
  raises \<^verbatim>\<open>UnpicklingError\<close>.
\<close>

theorem RedisDatabase_batch_query_damaged:
  "RedisDatabase_batch_query damaged_store [''p0'', ''p1'', ''p2'']
     = Inl (UnpicklingError, damaged_store)"
  by (simp add: RedisDatabase_batch_query_def damaged_store_def Database_init_def hmget_def
      pickle_dumps_def)

section \<open>Persist and load\<close>

text \<open>
  Claim C6. The claim is that \<^verbatim>\<open>persist()\<close> followed by \<^verbatim>\<open>load()\<close> on a new instance
  reproduces the keys and the results, for every set of committed pairs. For the
  empty set it does not, in the networked backend: \<^verbatim>\<open>persist()\<close> writes the empty
  dictionary, and \<^verbatim>\<open>load()\<close> of that file calls \<^verbatim>\<open>hmset\<close> with an empty mapping, which
  raises \<^verbatim>\<open>DataError\<close>.
\<close>

theorem RedisDatabase_load_empty_dump:
  "RedisDatabase_persist (RedisDatabase_init 1 :: (int, nat, int rhash) db) = (True, PickleFile [])
   \<and> RedisDatabase_load (\<lambda>i. i) (Some (PickleFile [])) (RedisDatabase_init 1 :: (int, nat, int rhash) db)
       = Inl (DataError,
              (RedisDatabase_init 1)\<lparr>log := [Info ''Load data from an existing database'']\<rparr>)"
  by (simp add: RedisDatabase_persist_def RedisDatabase_init_def Database_init_def hkeys_def
      RedisDatabase_load_def hmset_def)

section \<open>What a trimming pass leaves in the best cache\<close>

lemma dominated_put: "dominated k c ev \<Longrightarrow> dominated k (pq_put e c) ev"
  by (auto simp: dominated_def pq_put_def intro: le_SucI)

lemma dominated_append: "dominated k c ev \<Longrightarrow> dominated k (c @ xs) ev"
  by (auto simp: dominated_def intro: trans_le_add1)

lemma pq_get_fst_least:
  fixes q :: "('q::linorder, 't::linorder) entry list"
  shows "pq_get q = Some (m, q') \<Longrightarrow> x \<in> set q \<Longrightarrow> fst m \<le> fst x"
  using pq_get_least[of q m q' x] by (auto simp: entry_key_def less_eq_prod_def)

lemma pq_get_length_eq: "pq_get q = Some (m, q') \<Longrightarrow> length q = Suc (length q')"
  using pq_get_mset[of q m q'] by (metis size_mset size_add_mset)

lemma pq_get_filter_length:
  "pq_get q = Some (m, q') \<Longrightarrow>
     length (filter P q) = length (filter P q') + (if P m then 1 else 0)"
proof -
  assume g: "pq_get q = Some (m, q')"
  have "size (filter_mset P (mset q)) = size (filter_mset P (add_mset m (mset q')))"
    using pq_get_mset[OF g] by simp
  then show ?thesis by (simp del: mset_filter add: mset_filter[symmetric])
qed

lemma dominated_pop:
  fixes c :: "('q::linorder, 't::linorder) entry list"
  assumes d: "dominated k c ev" and g: "pq_get c = Some (m, c')" and k: "k < length c"
  shows "dominated k c' (m # ev)"
proof -
  have len: "k \<le> length c'" using pq_get_length_eq[OF g] k by simp
  have all: "\<And>y. y \<in> set c' \<Longrightarrow> fst m \<le> fst y"
    using pq_get_fst_least[OF g] pq_get_subset[OF g] by blast
  have "k \<le> length (filter (\<lambda>y. fst x \<le> fst y) c')" if x: "x = m \<or> x \<in> set ev" for x
  proof (cases "fst x \<le> fst m")
    case True
    then have "filter (\<lambda>y. fst x \<le> fst y) c' = c'"
      using all by (auto intro!: filter_True dest: order_trans)
    then show ?thesis using len by simp
  next
    case False
    then have xe: "x \<in> set ev" using x by auto
    have "length (filter (\<lambda>y. fst x \<le> fst y) c) = length (filter (\<lambda>y. fst x \<le> fst y) c')"
      using pq_get_filter_length[OF g, of "\<lambda>y. fst x \<le> fst y"] False by simp
    then show ?thesis using d xe unfolding dominated_def by metis
  qed
  then show ?thesis by (auto simp: dominated_def)
qed


lemma trim_cache_dominated:
  fixes c :: "('q::linorder, 't::linorder) entry list"
  assumes "0 \<le> n" and "dominated (nat n) c ev" and "mset c + mset ev = A"
  shows "\<exists>c' ev'. trim_cache n c = Some c' \<and> dominated (nat n) c' ev'
           \<and> mset c' + mset ev' = A \<and> length c' \<le> nat n"
  using assms
proof (induction n c arbitrary: ev rule: trim_cache.induct)
  case (1 n q)
  show ?case
  proof (cases "int (length q) > n")
    case False
    then have "trim_cache n q = Some q" by (simp add: trim_cache.simps[of n q])
    moreover have "length q \<le> nat n" using False by simp
    ultimately show ?thesis using "1.prems" by blast
  next
    case True
    then have ne: "q \<noteq> []" using "1.prems"(1) by auto
    then obtain m q' where g: "pq_get q = Some (m, q')"
      by (auto simp: pq_get_def Let_def)
    have k: "nat n < length q" using True "1.prems"(1) by simp
    have dom: "dominated (nat n) q' (m # ev)"
      using dominated_pop[OF "1.prems"(2) g k] .
    have ms: "mset q' + mset (m # ev) = A"
      using "1.prems"(3) pq_get_mset[OF g] by simp
    have "\<exists>c' ev'. trim_cache n q' = Some c' \<and> dominated (nat n) c' ev'
           \<and> mset c' + mset ev' = A \<and> length c' \<le> nat n"
      by (rule "1.IH"[OF True g refl "1.prems"(1) dom ms])
    moreover have "trim_cache n q = trim_cache n q'"
      using True g by (simp add: trim_cache.simps[of n q])
    ultimately show ?thesis by simp
  qed
qed

lemma dominated_final:
  fixes c :: "('q::linorder, 't::linorder) entry list"
  assumes d: "dominated k c ev" and l: "length c \<le> k"
  shows "(\<forall>x \<in> set ev. \<forall>y \<in> set c. fst x \<le> fst y)
         \<and> length c = min (length c + length ev) k"
proof
  show "\<forall>x \<in> set ev. \<forall>y \<in> set c. fst x \<le> fst y"
  proof (intro ballI)
    fix x y assume x: "x \<in> set ev" and y: "y \<in> set c"
    have "k \<le> length (filter (\<lambda>y. fst x \<le> fst y) c)" using d x by (simp add: dominated_def)
    then have "length (filter (\<lambda>y. fst x \<le> fst y) c) = length c"
      using l by (meson length_filter_le order_antisym order_trans)
    then have "\<not> (\<exists>z \<in> set c. \<not> fst x \<le> fst z)"
      using length_filter_less[of _ c "\<lambda>y. fst x \<le> fst y"] by (metis less_irrefl)
    then show "fst x \<le> fst y" using y by blast
  qed
  show "length c = min (length c + length ev) k"
  proof (cases ev)
    case Nil
    then show ?thesis using l by simp
  next
    case (Cons x xs)
    then have "k \<le> length (filter (\<lambda>y. fst x \<le> fst y) c)" using d by (simp add: dominated_def)
    then have "k \<le> length c" by (meson length_filter_le order_trans)
    then show ?thesis using l by simp
  qed
qed


lemma commit_redis_state:
  "best_cache (state_of (commit RedisDatabase_commit_impl k v t d)) =
     (case v of PyObj r \<Rightarrow> best_cache d @ [(quality r, t, r)] | _ \<Rightarrow> best_cache d)"
  "best_cache_size (state_of (commit RedisDatabase_commit_impl k v t d)) = best_cache_size d"
  by (cases v; simp add: commit_def RedisDatabase_commit_impl_def update_best_def pq_put_def)+

lemma launch_exploration_append:
  "launch_exploration (xs @ ys) d =
     (case launch_exploration xs d of None \<Rightarrow> None | Some d' \<Rightarrow> launch_exploration ys d')"
  by (induction xs d rule: launch_exploration.induct) (auto split: option.splits)

lemma committed_entries_append:
  "committed_entries (xs @ ys) = committed_entries xs @ committed_entries ys"
  by (induction xs rule: committed_entries.induct) auto

lemma launch_exploration_dominated:
  fixes d :: "('q::linorder, 't::linorder, 'q rhash) db"
  assumes "0 \<le> best_cache_size d"
    and "dominated (nat (best_cache_size d)) (best_cache d) ev"
    and "mset (best_cache d) + mset ev = A"
  shows "\<exists>d' ev'. launch_exploration steps d = Some d'
           \<and> best_cache_size d' = best_cache_size d
           \<and> dominated (nat (best_cache_size d)) (best_cache d') ev'
           \<and> mset (best_cache d') + mset ev' = A + mset (committed_entries steps)"
  using assms
proof (induction steps arbitrary: d ev A)
  case Nil
  then show ?case by auto
next
  case (Cons s steps)
  show ?case
  proof (cases s)
    case (Commit k v t)
    let ?d1 = "state_of (commit RedisDatabase_commit_impl k v t d)"
    let ?new = "case v of PyObj r \<Rightarrow> [(quality r, t, r)] | _ \<Rightarrow> []"
    have c1: "best_cache ?d1 = best_cache d @ ?new"
      by (cases v) (simp_all add: commit_redis_state)
    have s1: "best_cache_size ?d1 = best_cache_size d" by (simp add: commit_redis_state)
    have dom: "dominated (nat (best_cache_size ?d1)) (best_cache ?d1) ev"
      unfolding c1 s1 using Cons.prems(2) by (rule dominated_append)
    have ms: "mset (best_cache ?d1) + mset ev = A + mset ?new"
      using Cons.prems(3) by (simp add: c1)
    have ce: "committed_entries (s # steps) = ?new @ committed_entries steps"
      using Commit by (cases v) simp_all
    obtain d' ev' where r: "launch_exploration steps ?d1 = Some d'"
        "best_cache_size d' = best_cache_size ?d1"
        "dominated (nat (best_cache_size ?d1)) (best_cache d') ev'"
        "mset (best_cache d') + mset ev' = (A + mset ?new) + mset (committed_entries steps)"
      using Cons.IH[OF _ dom ms] Cons.prems(1) s1 by auto
    show ?thesis using r s1 Commit ce by (auto simp: ac_simps)
  next
    case Poll
    obtain c' ev1 where t: "trim_cache (best_cache_size d) (best_cache d) = Some c'"
        "dominated (nat (best_cache_size d)) c' ev1" "mset c' + mset ev1 = A"
      using trim_cache_dominated[OF Cons.prems] by blast
    let ?d1 = "d\<lparr>best_cache := c'\<rparr>"
    obtain d' ev' where r: "launch_exploration steps ?d1 = Some d'"
        "best_cache_size d' = best_cache_size ?d1"
        "dominated (nat (best_cache_size ?d1)) (best_cache d') ev'"
        "mset (best_cache d') + mset ev' = A + mset (committed_entries steps)"
      using Cons.IH[of ?d1 ev1 A] Cons.prems(1) t by auto
    show ?thesis using r t Poll by auto
  qed
qed

text \<open>
  Claim C1, amended. For a cache size that is not negative, every schedule of
  commits and iterations of the supervising loop that ends with an iteration (no
  commit after the last trimming pass) returns, and then: the entries ever in the
  cache, those it started with and one for each committed result object, valid or
  not, split into the entries the cache holds and the discarded entries \<open>ev\<close>; the
  cache holds as many entries as there were, up to the cache size; and no discarded
  entry has a quality above that of an entry the cache holds. Which of several
  entries of equal quality stays is not stated.
\<close>

theorem best_cache_after_poll:
  fixes d :: "('q::linorder, 't::linorder, 'q rhash) db"
  assumes "0 \<le> best_cache_size d"
  shows "\<exists>d' ev. launch_exploration (steps @ [Poll]) d = Some d'
           \<and> mset (best_cache d') + mset ev
               = mset (best_cache d) + mset (committed_entries steps)
           \<and> length (best_cache d')
               = min (length (best_cache d) + length (committed_entries steps))
                     (nat (best_cache_size d))
           \<and> (\<forall>x \<in> set ev. \<forall>y \<in> set (best_cache d'). fst x \<le> fst y)"
proof -
  let ?k = "nat (best_cache_size d)"
  have d0: "dominated ?k (best_cache d) []" by (simp add: dominated_def)
  obtain d1 ev1 where r: "launch_exploration steps d = Some d1"
      "best_cache_size d1 = best_cache_size d"
      "dominated ?k (best_cache d1) ev1"
      "mset (best_cache d1) + mset ev1 = mset (best_cache d) + mset (committed_entries steps)"
    using launch_exploration_dominated[OF assms d0, of "mset (best_cache d)" steps] by auto
  obtain c' ev' where t: "trim_cache (best_cache_size d) (best_cache d1) = Some c'"
      "dominated ?k c' ev'"
      "mset c' + mset ev' = mset (best_cache d) + mset (committed_entries steps)"
      "length c' \<le> ?k"
    using trim_cache_dominated[OF assms r(3) r(4)] by blast
  have run: "launch_exploration (steps @ [Poll]) d = Some (d1\<lparr>best_cache := c'\<rparr>)"
    using r(1,2) t(1) by (simp add: launch_exploration_append)
  have fin: "(\<forall>x \<in> set ev'. \<forall>y \<in> set c'. fst x \<le> fst y)
         \<and> length c' = min (length c' + length ev') ?k"
    using dominated_final[OF t(2) t(4)] .
  have "length c' + length ev' = length (best_cache d) + length (committed_entries steps)"
    using t(3) by (metis size_mset size_union)
  then show ?thesis using run t(3) fin by (intro exI[of _ "d1\<lparr>best_cache := c'\<rparr>"] exI[of _ ev']) simp
qed

theorem best_cache_after_poll_witness:
  "(\<exists>d' ev. launch_exploration (four_commits @ [Poll]) (RedisDatabase_init 2) = Some d'
           \<and> mset (best_cache d') + mset ev = mset (committed_entries four_commits)
           \<and> length (best_cache d') = 2
           \<and> (\<forall>x \<in> set ev. \<forall>y \<in> set (best_cache d'). fst x \<le> fst y))
   \<and> map_option best_cache (launch_exploration (four_commits @ [Poll]) (RedisDatabase_init 2))
       = Some [(30, 2, mk_result HLSResult 30 True None), (30, 4, mk_result HLSResult 30 True None)]"
proof -
  have h: "0 \<le> best_cache_size (RedisDatabase_init 2 :: (int, nat, int rhash) db)"
    by (simp add: RedisDatabase_init_def Database_init_def)
  have n: "length (committed_entries four_commits) = 4" by (simp add: four_commits_def)
  have e: "map_option best_cache (launch_exploration (four_commits @ [Poll]) (RedisDatabase_init 2))
       = Some [(30, 2, mk_result HLSResult 30 True None), (30, 4, mk_result HLSResult 30 True None)]"
    by code_simp
  show ?thesis using best_cache_after_poll[OF h, of four_commits] n e
    by (simp add: RedisDatabase_init_def Database_init_def)
qed

text \<open>
  The claim as stated fails in three ways. Commits after the last iteration of the
  loop are not trimmed: with cache size 1 and two commits before the workers end,
  the cache holds two entries when the exploration returns. A result that is not
  valid is cached like any other. Of two results of equal quality the trimming pass
  discards the one committed first.
\<close>

theorem best_cache_after_draining_counterexample:
  "map_option (\<lambda>d. (best_cache_size d, length (best_cache d)))
       (launch_exploration two_commits (RedisDatabase_init 1)) = Some (1, 2)
   \<and> map_option best_cache (launch_exploration invalid_commit (RedisDatabase_init 1))
       = Some [(7, 1, mk_result HLSResult 7 False None)]
   \<and> map_option best_cache (launch_exploration tie_commits (RedisDatabase_init 1))
       = Some [(5, 2, mk_result HLSResult 5 True (Some ''second''))]"
  by code_simp

section \<open>Queries of the networked backend where the handler applies\<close>

text \<open>
  What \<^verbatim>\<open>query\<close> of the networked backend does where its handler applies: \<^verbatim>\<open>None\<close>
  for a key the hash does not hold, the value for a pickle, \<^verbatim>\<open>None\<close> and one logged
  error for bytes on which \<^verbatim>\<open>pickle.loads\<close> raises \<^verbatim>\<open>ValueError\<close>, \<^verbatim>\<open>None\<close> and no log
  for empty bytes.
\<close>

theorem RedisDatabase_query_soft:
  "(hget (database d) k = None \<longrightarrow> RedisDatabase_query d k = Inr (PyNone, d))
   \<and> (hget (database d) k = Some (pickle_dumps v) \<longrightarrow> RedisDatabase_query d k = Inr (v, d))
   \<and> (hget (database d) k = Some (Damaged ValueError) \<longrightarrow>
        RedisDatabase_query d k =
          Inr (PyNone, d\<lparr>log := log d @ [Error (''Failed to deserialize the result of '' @ k)]\<rparr>))
   \<and> (hget (database d) k = Some NoBytes \<longrightarrow> RedisDatabase_query d k = Inr (PyNone, d))"
  by (simp add: RedisDatabase_query_def hexists_def hget_def pickle_dumps_def)

lemma batch_query_loop_readable:
  "\<forall>(k, po) \<in> set zs. readable po \<Longrightarrow>
     \<exists>d'. batch_query_loop zs data d = Inr (data @ map (slot_value \<circ> snd) zs, d')
          \<and> database d' = database d \<and> best_cache d' = best_cache d
          \<and> code_hash_set d' = code_hash_set d \<and> best_cache_size d' = best_cache_size d"
proof (induction zs data d rule: batch_query_loop.induct)
  case (1 data d)
  then show ?case by simp
next
  case (2 k po rest data d)
  show ?case
  proof (cases po)
    case None
    then show ?thesis using 2 by simp
  next
    case (Some b)
    show ?thesis
    proof (cases b)
      case (Pickled v)
      then show ?thesis using 2 Some by simp
    next
      case (Damaged e)
      then show ?thesis using 2 Some by simp
    next
      case NoBytes
      then show ?thesis using 2 Some by simp
    qed
  qed
qed

lemma zip_map_same: "zip xs (map g xs) = map (\<lambda>x. (x, g x)) xs"
  by (induction xs) auto

text \<open>
  When no key of the list holds bytes on which \<^verbatim>\<open>pickle.loads\<close> raises something
  other than \<^verbatim>\<open>ValueError\<close>, \<^verbatim>\<open>batch_query\<close> returns one slot per key, in the order of
  the keys.
\<close>

theorem RedisDatabase_batch_query_slots:
  assumes "\<forall>k \<in> set keys. readable (hget (database d) k)"
  shows "\<exists>d'. RedisDatabase_batch_query d keys
               = Inr (map (\<lambda>k. slot_value (hget (database d) k)) keys, d')
          \<and> database d' = database d"
proof (cases "keys = []")
  case True
  then show ?thesis by (simp add: RedisDatabase_batch_query_def)
next
  case False
  have "\<forall>(k, po) \<in> set (zip keys (hmget (database d) keys)). readable po"
    using assms by (auto simp: hmget_def hget_def set_zip)
  then obtain d' where
    "batch_query_loop (zip keys (hmget (database d) keys)) [] d
       = Inr ([] @ map (slot_value \<circ> snd) (zip keys (hmget (database d) keys)), d')"
    "database d' = database d"
    using batch_query_loop_readable[of "zip keys (hmget (database d) keys)" "[]" d] by blast
  moreover have "map (slot_value \<circ> snd) (zip keys (hmget (database d) keys))
      = map (\<lambda>k. slot_value (hget (database d) k)) keys"
    by (simp add: hmget_def hget_def zip_map_same comp_def)
  ultimately show ?thesis using False by (simp add: RedisDatabase_batch_query_def)
qed

section \<open>The round trip through persist and load\<close>

lemma update_fresh: "k \<notin> fst ` set al \<Longrightarrow> AList.update k v al = al @ [(k, v)]"
  by (induction al) auto

lemma fold_update_fresh:
  "distinct (map fst xs) \<Longrightarrow> fst ` set xs \<inter> fst ` set acc = {} \<Longrightarrow>
     fold (\<lambda>(k, b). AList.update k b) xs acc = acc @ xs"
proof (induction xs arbitrary: acc)
  case Nil
  show ?case by simp
next
  case (Cons p xs)
  obtain k b where p: "p = (k, b)" by (cases p)
  have k: "k \<notin> fst ` set acc" using Cons.prems(2) p by auto
  have "fst ` set xs \<inter> fst ` set (acc @ [(k, b)]) = {}"
    using Cons.prems p by auto
  then have "fold (\<lambda>(k, b). AList.update k b) xs (acc @ [(k, b)]) = (acc @ [(k, b)]) @ xs"
    using Cons.IH[of "acc @ [(k, b)]"] Cons.prems(1) by simp
  then show ?case using p k by (simp add: update_fresh)
qed

lemma fold_dump_fresh:
  "distinct (map fst xs) \<Longrightarrow> \<forall>(k, b) \<in> set xs. hget s k = Some b \<Longrightarrow>
   fst ` set xs \<inter> fst ` set acc = {} \<Longrightarrow>
     fold (\<lambda>k acc. case hget s k of Some b \<Rightarrow> AList.update k b acc | None \<Rightarrow> acc)
          (map fst xs) acc = acc @ xs"
proof (induction xs arbitrary: acc)
  case Nil
  show ?case by simp
next
  case (Cons p xs)
  obtain k b where p: "p = (k, b)" by (cases p)
  have k: "k \<notin> fst ` set acc" using Cons.prems(3) p by auto
  have h: "hget s k = Some b" using Cons.prems(2) p by auto
  have "fst ` set xs \<inter> fst ` set (acc @ [(k, b)]) = {}"
    using Cons.prems p by auto
  then have "fold (\<lambda>k acc. case hget s k of Some b \<Rightarrow> AList.update k b acc | None \<Rightarrow> acc)
          (map fst xs) (acc @ [(k, b)]) = (acc @ [(k, b)]) @ xs"
    using Cons.IH[of "acc @ [(k, b)]"] Cons.prems(1,2) by simp
  then show ?case using p k h by (simp add: update_fresh)
qed

lemma RedisDatabase_persist_distinct:
  "distinct (map fst (database d)) \<Longrightarrow> RedisDatabase_persist d = (True, PickleFile (database d))"
  using fold_dump_fresh[of "database d" "database d" "[]"]
  by (simp add: RedisDatabase_persist_def hkeys_def hget_def)

lemma hmset_fresh: "distinct (map fst s) \<Longrightarrow> s \<noteq> [] \<Longrightarrow> hmset s [] = Inr s"
  using fold_update_fresh[of s "[]"] by (simp add: hmset_def)

lemma commit_all_redis_database:
  "database (commit_all RedisDatabase_commit_impl clock i ps d) =
     fold (\<lambda>(k, v). AList.update k (pickle_dumps v)) ps (database d)"
  by (induction ps arbitrary: i d)
     (auto simp: commit_def RedisDatabase_commit_impl_def hset_def update_best_def
        split: pyval.splits)

lemma cache_all_frame:
  "database (cache_all clock i vs d) = database d"
  "code_hash_set (cache_all clock i vs d) = code_hash_set d"
  "best_cache_size (cache_all clock i vs d) = best_cache_size d"
  by (induction clock i vs d rule: cache_all.induct) (auto split: pyval.splits)

lemma hash_all_frame:
  "database (hash_all vs d) = database d"
  "best_cache (hash_all vs d) = best_cache d"
  "best_cache_size (hash_all vs d) = best_cache_size d"
  by (induction vs d rule: hash_all.induct) (auto split: pyval.splits option.splits)


lemma RedisDatabase_query_all_readable:
  assumes "\<forall>k. readable (hget (database d) k)"
  shows "\<exists>vs d'. RedisDatabase_query_all d = Inr (vs, d') \<and> database d' = database d"
  using RedisDatabase_batch_query_slots[of "RedisDatabase_query_keys d" d] assms
  by (auto simp: RedisDatabase_query_all_def)

lemma RedisDatabase_load_file:
  assumes s: "distinct (map fst s)" "s \<noteq> []" and r: "\<forall>k. readable (hget s k)"
  shows "\<exists>d'. RedisDatabase_load clock (Some (PickleFile s)) (RedisDatabase_init m) = Inr d'
           \<and> database d' = s"
proof -
  let ?d2 = "(RedisDatabase_init m :: ('a, 'b, 'a rhash) db)
               \<lparr>log := log (RedisDatabase_init m :: ('a, 'b, 'a rhash) db)
                         @ [Info ''Load data from an existing database''],
                database := s\<rparr>"
  have db2: "database ?d2 = s" by simp
  obtain vs d2' where q2: "RedisDatabase_query_all ?d2 = Inr (vs, d2')" "database d2' = s"
    using RedisDatabase_query_all_readable[of ?d2] r by auto
  let ?d3 = "init_best_cache clock vs d2'"
  have db3: "database ?d3 = s" by (simp add: init_best_cache_def cache_all_frame q2)
  have ib: "RedisDatabase_init_best_cache clock ?d2 = Inr ?d3"
    using s(2) q2 by (simp add: RedisDatabase_init_best_cache_def RedisDatabase_count_def hkeys_def)
  obtain vs' d3' where q3: "RedisDatabase_query_all ?d3 = Inr (vs', d3')" "database d3' = s"
    using RedisDatabase_query_all_readable[of ?d3] r db3 by auto
  let ?d4 = "init_code_hash_set vs' d3'"
  have db4: "database ?d4 = s" by (simp add: init_code_hash_set_def hash_all_frame q3)
  have ih: "RedisDatabase_init_code_hash_set ?d3 = Inr ?d4"
    using s(2) q3 db3
    by (simp add: RedisDatabase_init_code_hash_set_def RedisDatabase_count_def hkeys_def)
  have "RedisDatabase_load clock (Some (PickleFile s)) (RedisDatabase_init m) = Inr ?d4"
    using hmset_fresh[OF s] ib ih
    by (simp add: RedisDatabase_load_def Let_def RedisDatabase_init_def Database_init_def)
  then show ?thesis using db4 by blast
qed

lemma map_of_map_value:
  "map_of (map (\<lambda>(k, v). (k, f v)) xs) k = map_option f (map_of xs k)"
  by (induction xs) auto

lemma hget_fold_dumps:
  "hget (fold (\<lambda>(k, v). AList.update k (pickle_dumps v)) ps []) k
     = map_option pickle_dumps (map_of (rev ps) k)"
  by (simp add: hget_def map_of_fold_update rev_map map_of_map_value)

text \<open>
  The round trip of the networked backend for a non-empty list of commits to a new
  store: \<^verbatim>\<open>persist()\<close>, then \<^verbatim>\<open>load()\<close> on a new instance, returns; the keys are the
  same; and \<^verbatim>\<open>query\<close> gives, for each key, the value last committed under it.
\<close>

theorem RedisDatabase_round_trip:
  assumes "pairs \<noteq> []"
  shows "\<exists>d'. RedisDatabase_load clock' 
                (Some (snd (RedisDatabase_persist
                   (commit_all RedisDatabase_commit_impl clock 0 pairs (RedisDatabase_init n)))))
                (RedisDatabase_init m) = Inr d'
           \<and> RedisDatabase_query_keys d'
               = RedisDatabase_query_keys
                   (commit_all RedisDatabase_commit_impl clock 0 pairs (RedisDatabase_init n))
           \<and> set (RedisDatabase_query_keys d') = fst ` set pairs
           \<and> (\<forall>k v. map_of (rev pairs) k = Some v \<longrightarrow> RedisDatabase_query d' k = Inr (v, d'))"
proof -
  let ?d = "commit_all RedisDatabase_commit_impl clock 0 pairs (RedisDatabase_init n)"
  let ?s = "fold (\<lambda>(k, v). AList.update k (pickle_dumps v)) pairs []"
  have db: "database ?d = ?s"
    by (simp add: commit_all_redis_database RedisDatabase_init_def Database_init_def)
  have dist: "distinct (map fst ?s)" by (rule distinct_fold_update) simp
  have ne: "?s \<noteq> []" using assms by (simp add: fold_update_Nil_iff)
  have keys: "fst ` set ?s = fst ` set pairs" using dom_fold_update[of pickle_dumps pairs "[]"] by simp
  have rd: "\<forall>k. readable (hget ?s k)"
  proof
    fix k show "readable (hget ?s k)"
      unfolding hget_fold_dumps by (cases "map_of (rev pairs) k") (simp_all add: pickle_dumps_def)
  qed
  have per: "snd (RedisDatabase_persist ?d) = PickleFile ?s"
    using RedisDatabase_persist_distinct[of ?d] dist db by simp
  obtain d' where l: "RedisDatabase_load clock' (Some (PickleFile ?s)) (RedisDatabase_init m) = Inr d'"
      "database d' = ?s"
    using RedisDatabase_load_file[OF dist ne rd] by blast
  have q: "RedisDatabase_query d' k = Inr (v, d')" if "map_of (rev pairs) k = Some v" for k v
    using RedisDatabase_query_soft[of d' k v] that l(2) by (simp add: hget_fold_dumps)
  show ?thesis
    using l per db keys q by (intro exI[of _ d']) (simp add: RedisDatabase_query_keys_def hkeys_def)
qed

lemma update_mid:
  "k \<notin> fst ` set xs \<Longrightarrow> AList.update k w (xs @ (k, v) # ys) = xs @ (k, w) # ys"
  by (induction xs) auto

lemma map_of_mid: "k \<notin> fst ` set xs \<Longrightarrow> map_of (xs @ (k, v) # ys) k = Some v"
  by (induction xs) auto

lemma encoded_Nil [simp]: "encoded [] = []"
  by (simp add: encoded_def)

lemma encoded_keys [simp]: "map fst (encoded s) = map fst s"
  by (induction s) (auto simp: encoded_def)

lemma encoded_append [simp]: "encoded (xs @ ys) = encoded xs @ encoded ys"
  by (simp add: encoded_def)

lemma fold_encode:
  "distinct (map fst (xs @ ys)) \<Longrightarrow>
     fold (\<lambda>k s. pickledb_set k (jsonpickle_encode (pickledb_get s k)) s) (map fst ys)
          (encoded xs @ ys) = encoded xs @ encoded ys"
proof (induction ys arbitrary: xs)
  case Nil
  show ?case by simp
next
  case (Cons p ys)
  obtain k v where p: "p = (k, v)" by (cases p)
  have k: "k \<notin> fst ` set (encoded xs)"
    using Cons.prems p by (metis distinct_append distinct.simps(2) encoded_keys list.simps(9) map_append
        disjoint_iff list.set_intros(1) set_map fst_conv)
  have step: "pickledb_set k (jsonpickle_encode (pickledb_get (encoded xs @ (k, v) # ys) k))
                (encoded xs @ (k, v) # ys) = encoded (xs @ [(k, v)]) @ ys"
  proof -
    have g: "pickledb_get (encoded xs @ (k, v) # ys) k = v"
      by (simp only: pickledb_get_def map_of_mid[OF k] option.case)
    have u: "pickledb_set k (jsonpickle_encode v) (encoded xs @ (k, v) # ys)
               = encoded xs @ (k, jsonpickle_encode v) # ys"
      by (simp only: pickledb_set_def update_mid[OF k])
    show ?thesis by (simp only: g u) (simp add: encoded_def)
  qed
  have "distinct (map fst ((xs @ [(k, v)]) @ ys))" using Cons.prems p by simp
  then have "fold (\<lambda>k s. pickledb_set k (jsonpickle_encode (pickledb_get s k)) s) (map fst ys)
          (encoded (xs @ [(k, v)]) @ ys) = encoded (xs @ [(k, v)]) @ encoded ys"
    by (rule Cons.IH)
  then show ?case using step p by (simp add: encoded_def)
qed

lemma decode_loop_encoded:
  "distinct (map fst (xs @ ys)) \<Longrightarrow>
     decode_loop (map fst ys) (xs @ encoded ys) = Inr (xs @ ys)"
proof (induction ys arbitrary: xs)
  case Nil
  show ?case by (simp add: encoded_def)
next
  case (Cons p ys)
  obtain k v where p: "p = (k, v)" by (cases p)
  have k: "k \<notin> fst ` set xs" using Cons.prems p by auto
  have e: "encoded ((k, v) # ys) = (k, jsonpickle_encode v) # encoded ys" by (simp add: encoded_def)
  have step: "pickledb_set k v (xs @ (k, jsonpickle_encode v) # encoded ys) = (xs @ [(k, v)]) @ encoded ys"
    using k by (simp add: pickledb_set_def update_mid)
  have g: "pickledb_get (xs @ (k, jsonpickle_encode v) # encoded ys) k = jsonpickle_encode v"
    by (simp only: pickledb_get_def map_of_mid[OF k] option.case)
  have "distinct (map fst ((xs @ [(k, v)]) @ ys))" using Cons.prems p by simp
  then have "decode_loop (map fst ys) ((xs @ [(k, v)]) @ encoded ys) = Inr ((xs @ [(k, v)]) @ ys)"
    by (rule Cons.IH)
  then show ?case using p e g step by (simp add: jsonpickle_encode_def)
qed


lemma commit_all_pickle_database:
  "database (commit_all PickleDatabase_commit_impl clock i ps d) =
     fold (\<lambda>(k, v). AList.update k v) ps (database d)"
  by (induction ps arbitrary: i d)
     (auto simp: commit_def PickleDatabase_commit_impl_def pickledb_set_def update_best_def
        split: pyval.splits)

lemma PickleDatabase_persist_distinct:
  "distinct (map fst (database d)) \<Longrightarrow>
     PickleDatabase_persist d
       = (True, JsonFile (encoded (database d)), d\<lparr>database := encoded (database d)\<rparr>)"
  using fold_encode[of "[]" "database d"]
  by (simp add: PickleDatabase_persist_def pickledb_getall_def Let_def)

lemma PickleDatabase_load_encoded:
  assumes "distinct (map fst s)" and "database d0 = encoded s"
  shows "\<exists>d'. PickleDatabase_load clock d0 = Inr d' \<and> database d' = s"
proof -
  have dl: "decode_loop (pickledb_getall (database d0)) (database d0) = Inr s"
    using decode_loop_encoded[of "[]" s] assms by (simp add: pickledb_getall_def)
  show ?thesis
    by (simp add: PickleDatabase_load_def dl Let_def init_best_cache_def init_code_hash_set_def
        cache_all_frame hash_all_frame)
qed

text \<open>
  The round trip of the local-file backend, for every list of commits to a new
  store, the empty one included: a new instance on the dumped file, then \<^verbatim>\<open>load()\<close>,
  has the same keys, and \<^verbatim>\<open>query\<close> gives the same for every key.
\<close>

theorem PickleDatabase_round_trip:
  "\<exists>d0 d'. PickleDatabase_init m
               (Some (fst (snd (PickleDatabase_persist
                  (commit_all PickleDatabase_commit_impl clock 0 pairs (Database_init n []))))))
             = Inr d0
         \<and> PickleDatabase_load clock' d0 = Inr d'
         \<and> PickleDatabase_query_keys d'
             = PickleDatabase_query_keys
                 (commit_all PickleDatabase_commit_impl clock 0 pairs (Database_init n []))
         \<and> (\<forall>k. PickleDatabase_query d' k
                 = PickleDatabase_query
                     (commit_all PickleDatabase_commit_impl clock 0 pairs (Database_init n [])) k)"
proof -
  let ?d = "commit_all PickleDatabase_commit_impl clock 0 pairs (Database_init n [])"
  let ?s = "fold (\<lambda>(k, v). AList.update k v) pairs []"
  have db: "database ?d = ?s"
    by (simp add: commit_all_pickle_database Database_init_def)
  have dist: "distinct (map fst ?s)"
    using distinct_fold_update[of "[]" "\<lambda>x. x" pairs] by simp
  have per: "fst (snd (PickleDatabase_persist ?d)) = JsonFile (encoded ?s)"
    using PickleDatabase_persist_distinct[of ?d] dist db by simp
  let ?d0 = "Database_init m (encoded ?s)"
  have i: "PickleDatabase_init m (Some (JsonFile (encoded ?s))) = Inr ?d0"
    by (simp add: PickleDatabase_init_def)
  have "database ?d0 = encoded ?s" by (simp add: Database_init_def)
  then obtain d' where l: "PickleDatabase_load clock' ?d0 = Inr d'" "database d' = ?s"
    using PickleDatabase_load_encoded[OF dist] by blast
  show ?thesis
    using i l per db
    by (intro exI[of _ ?d0] exI[of _ d'])
       (simp add: PickleDatabase_query_keys_def PickleDatabase_query_def)
qed

end
